theory Spec2Isabelle
  imports Complex_Main
begin

section \<open>Grids, faults and loops\<close>

text \<open>
  The simulation engine stores every field as a \<^verbatim>\<open>std::vector<std::vector<double>>\<close>,
  indexed \<^verbatim>\<open>grid[y][x]\<close>. A field is modelled as a list of rows. A \<^verbatim>\<open>double\<close> is
  modelled as a \<^typ>\<open>real\<close>: arithmetic is exact, there is no rounding, no NaN and no
  infinity, and a quotient by zero or the square root of a negative number has the value
  HOL gives it, not the one of IEEE arithmetic. Grid sizes are natural numbers (the
  constructors resize vectors to them).

  Indexing a vector past its end is undefined behaviour in the source. The model makes
  it a value: every cell access is guarded, and an access outside the vector yields
  \<open>Inl OutOfBounds\<close>.
\<close>

type_synonym 'a grid = "'a list list"

datatype error = OutOfBounds | IndeterminateValue

definition in_grid :: "'a grid \<Rightarrow> nat \<Rightarrow> nat \<Rightarrow> bool" where
  "in_grid g y x \<longleftrightarrow> y < length g \<and> x < length (g ! y)"

definition grid_set :: "'a grid \<Rightarrow> nat \<Rightarrow> nat \<Rightarrow> 'a \<Rightarrow> 'a grid" where
  "grid_set g y x v = g[y := (g ! y)[x := v]]"

definition new_grid :: "nat \<Rightarrow> nat \<Rightarrow> 'a \<Rightarrow> 'a grid" where
  "new_grid h w v = replicate h (replicate w v)"

definition is_grid :: "nat \<Rightarrow> nat \<Rightarrow> 'a grid \<Rightarrow> bool" where
  "is_grid h w g \<longleftrightarrow> length g = h \<and> list_all (\<lambda>r. length r = w) g"

text \<open>
  \<^verbatim>\<open>for (int i = lo; i < hi; ++i) body\<close> runs the body over \<open>[lo..<hi]\<close>, threading the
  variables the body assigns and stopping at the first fault.
\<close>

fun for_loop :: "nat list \<Rightarrow> (nat \<Rightarrow> 's \<Rightarrow> error + 's) \<Rightarrow> 's \<Rightarrow> error + 's" where
  "for_loop [] body s = Inr s"
| "for_loop (i # is) body s =
     (case body i s of Inl e \<Rightarrow> Inl e | Inr s' \<Rightarrow> for_loop is body s')"

section \<open>The Simplified Excitable model (FitzHughNagumo)\<close>

record fhn =
  fhn_width :: nat
  fhn_height :: nat
  fhn_dt :: real
  fhn_time :: real
  fhn_a :: real
  fhn_b :: real
  fhn_c :: real
  fhn_d :: real
  fhn_du :: real
  fhn_dv :: real
  fhn_u :: "real grid"
  fhn_v :: "real grid"
  fhn_u_new :: "real grid"
  fhn_v_new :: "real grid"
  fhn_stimulus :: "real grid"

definition FitzHughNagumo :: "nat \<Rightarrow> nat \<Rightarrow> real \<Rightarrow> fhn" where
  "FitzHughNagumo w h dt =
     \<lparr>fhn_width = w, fhn_height = h, fhn_dt = dt, fhn_time = 0,
      fhn_a = 0.1, fhn_b = 0.5, fhn_c = 1.0, fhn_d = 0.0, fhn_du = 0.1, fhn_dv = 0.0,
      fhn_u = new_grid h w 0, fhn_v = new_grid h w 0,
      fhn_u_new = new_grid h w 0, fhn_v_new = new_grid h w 0,
      fhn_stimulus = new_grid h w 0\<rparr>"

definition setParameters :: "fhn \<Rightarrow> real \<Rightarrow> real \<Rightarrow> real \<Rightarrow> real \<Rightarrow> fhn" where
  "setParameters m a b c d = m\<lparr>fhn_a := a, fhn_b := b, fhn_c := c, fhn_d := d\<rparr>"

definition setDiffusionCoefficients :: "fhn \<Rightarrow> real \<Rightarrow> real \<Rightarrow> fhn" where
  "setDiffusionCoefficients m du dv = m\<lparr>fhn_du := du, fhn_dv := dv\<rparr>"

definition isValidCoordinate :: "fhn \<Rightarrow> int \<Rightarrow> int \<Rightarrow> bool" where
  "isValidCoordinate m x y \<longleftrightarrow> x \<ge> 0 \<and> x < int (fhn_width m) \<and> y \<ge> 0 \<and> y < int (fhn_height m)"

text \<open>
  \<^verbatim>\<open>addStimulus\<close> stores the strength in the stimulus field and ignores the duration;
  nothing else in the class writes the stimulus field except \<^verbatim>\<open>initialize\<close>.
\<close>

definition addStimulus :: "fhn \<Rightarrow> int \<Rightarrow> int \<Rightarrow> real \<Rightarrow> real \<Rightarrow> error + fhn" where
  "addStimulus m x y strength duration =
     (if \<not> isValidCoordinate m x y then Inr m
      else if \<not> in_grid (fhn_stimulus m) (nat y) (nat x) then Inl OutOfBounds
      else Inr (m\<lparr>fhn_stimulus := grid_set (fhn_stimulus m) (nat y) (nat x) strength\<rparr>))"

definition reactionU :: "real \<Rightarrow> real \<Rightarrow> real \<Rightarrow> real" where
  "reactionU u_val v_val stim_val = u_val - u_val * u_val * u_val / 3.0 - v_val + stim_val"

definition reactionV :: "fhn \<Rightarrow> real \<Rightarrow> real \<Rightarrow> real" where
  "reactionV m u_val v_val = (u_val + fhn_a m - fhn_b m * v_val) / fhn_c m"

definition fhn_diffusion_cell ::
  "real grid \<Rightarrow> real \<Rightarrow> nat \<Rightarrow> nat \<Rightarrow> real grid \<Rightarrow> error + real grid" where
  "fhn_diffusion_cell grid coeff y x result =
     (if in_grid grid (y - 1) x \<and> in_grid grid (y + 1) x \<and> in_grid grid y (x - 1)
         \<and> in_grid grid y (x + 1) \<and> in_grid grid y x \<and> in_grid result y x
      then let laplacian = grid ! (y - 1) ! x + grid ! (y + 1) ! x + grid ! y ! (x - 1)
                           + grid ! y ! (x + 1) - 4.0 * grid ! y ! x
           in Inr (grid_set result y x (coeff * laplacian))
      else Inl OutOfBounds)"

definition fhn_applyDiffusion ::
  "fhn \<Rightarrow> real grid \<Rightarrow> real \<Rightarrow> real grid \<Rightarrow> error + real grid" where
  "fhn_applyDiffusion m grid coeff result =
     for_loop [1..<fhn_height m - 1]
       (\<lambda>y. for_loop [1..<fhn_width m - 1] (\<lambda>x. fhn_diffusion_cell grid coeff y x)) result"

text \<open>The variables the update loop of \<^verbatim>\<open>step\<close> assigns.\<close>

record fhn_vars =
  fv_du_dt :: "real grid"
  fv_dv_dt :: "real grid"
  fv_u_new :: "real grid"
  fv_v_new :: "real grid"

definition fhn_step_cell :: "fhn \<Rightarrow> nat \<Rightarrow> nat \<Rightarrow> fhn_vars \<Rightarrow> error + fhn_vars" where
  "fhn_step_cell m y x s =
     (if in_grid (fhn_u m) y x \<and> in_grid (fhn_v m) y x \<and> in_grid (fhn_stimulus m) y x
         \<and> in_grid (fv_du_dt s) y x \<and> in_grid (fv_dv_dt s) y x
         \<and> in_grid (fv_u_new s) y x \<and> in_grid (fv_v_new s) y x
      then let u_val = fhn_u m ! y ! x;
               v_val = fhn_v m ! y ! x;
               stim_val = fhn_stimulus m ! y ! x;
               du = fv_du_dt s ! y ! x + reactionU u_val v_val stim_val;
               dv = fv_dv_dt s ! y ! x + reactionV m u_val v_val
           in Inr \<lparr>fv_du_dt = grid_set (fv_du_dt s) y x du,
                   fv_dv_dt = grid_set (fv_dv_dt s) y x dv,
                   fv_u_new = grid_set (fv_u_new s) y x (u_val + fhn_dt m * du),
                   fv_v_new = grid_set (fv_v_new s) y x (v_val + fhn_dt m * dv)\<rparr>
      else Inl OutOfBounds)"

definition fhn_step :: "fhn \<Rightarrow> error + fhn" where
  "fhn_step m =
     (let zero = new_grid (fhn_height m) (fhn_width m) 0 in
      case (if fhn_du m > 0.0 then fhn_applyDiffusion m (fhn_u m) (fhn_du m) zero else Inr zero) of
        Inl e \<Rightarrow> Inl e
      | Inr du_dt \<Rightarrow>
      (case (if fhn_dv m > 0.0 then fhn_applyDiffusion m (fhn_v m) (fhn_dv m) zero else Inr zero) of
        Inl e \<Rightarrow> Inl e
      | Inr dv_dt \<Rightarrow>
      (case for_loop [0..<fhn_height m]
              (\<lambda>y. for_loop [0..<fhn_width m] (\<lambda>x. fhn_step_cell m y x))
              \<lparr>fv_du_dt = du_dt, fv_dv_dt = dv_dt,
               fv_u_new = fhn_u_new m, fv_v_new = fhn_v_new m\<rparr> of
        Inl e \<Rightarrow> Inl e
      | Inr s \<Rightarrow>
          Inr (m\<lparr>fhn_u := fv_u_new s, fhn_v := fv_v_new s,
                 fhn_u_new := fhn_u m, fhn_v_new := fhn_v m,
                 fhn_time := fhn_time m + fhn_dt m\<rparr>))))"

fun fhn_run :: "nat \<Rightarrow> fhn \<Rightarrow> error + fhn" where
  "fhn_run 0 m = Inr m"
| "fhn_run (Suc n) m = (case fhn_step m of Inl e \<Rightarrow> Inl e | Inr m' \<Rightarrow> fhn_run n m')"

text \<open>The class invariant: every field of the model has the shape of the grid.\<close>

definition fhn_wf :: "fhn \<Rightarrow> bool" where
  "fhn_wf m \<longleftrightarrow>
     is_grid (fhn_height m) (fhn_width m) (fhn_u m) \<and>
     is_grid (fhn_height m) (fhn_width m) (fhn_v m) \<and>
     is_grid (fhn_height m) (fhn_width m) (fhn_u_new m) \<and>
     is_grid (fhn_height m) (fhn_width m) (fhn_v_new m) \<and>
     is_grid (fhn_height m) (fhn_width m) (fhn_stimulus m)"

section \<open>State persistence of the Simplified Excitable model\<close>

text \<open>
  A state file is plain text read with \<^verbatim>\<open>operator>>\<close>, which skips white space. The file
  is modelled as the sequence of fields the extractions of \<^verbatim>\<open>loadState\<close> meet:
  \<open>IntTok n\<close> is an integer literal, \<open>RealTok r\<close> is any other text that converts to
  the \<^verbatim>\<open>double\<close> \<open>r\<close> (it does not convert to an \<^verbatim>\<open>int\<close>), \<open>BadTok\<close> is text that
  converts to no number. Literals outside the range of the target type are not modelled.

  After a failed extraction the stream stays failed and later extractions leave their
  target alone. Since C++11 a field that does not convert stores zero in the target; at
  the end of the file the target is left as it was.
\<close>

datatype token = IntTok int | RealTok real | BadTok

record istream =
  is_toks :: "token list"
  is_fail :: bool

definition extract_int :: "istream \<Rightarrow> int option \<Rightarrow> int option \<times> istream" where
  "extract_int s old =
     (if is_fail s then (old, s)
      else case is_toks s of
        [] \<Rightarrow> (old, s\<lparr>is_fail := True\<rparr>)
      | IntTok n # rest \<Rightarrow> (Some n, s\<lparr>is_toks := rest\<rparr>)
      | _ # rest \<Rightarrow> (Some 0, s\<lparr>is_fail := True\<rparr>))"

definition extract_double :: "istream \<Rightarrow> real \<Rightarrow> real \<times> istream" where
  "extract_double s old =
     (if is_fail s then (old, s)
      else case is_toks s of
        [] \<Rightarrow> (old, s\<lparr>is_fail := True\<rparr>)
      | IntTok n # rest \<Rightarrow> (of_int n, s\<lparr>is_toks := rest\<rparr>)
      | RealTok r # rest \<Rightarrow> (r, s\<lparr>is_toks := rest\<rparr>)
      | BadTok # rest \<Rightarrow> (0, s\<lparr>is_fail := True\<rparr>))"

text \<open>
  \<^verbatim>\<open>file << x\<close> for a \<^verbatim>\<open>double\<close> on a stream in its default state prints with
  precision 6 in the general format: the value rounded to six significant decimal
  digits (to nearest, ties to even), as plain digits when it is an integer below
  \<open>10\<^sup>6\<close> in magnitude.
\<close>

definition round_half_even :: "real \<Rightarrow> int" where
  "round_half_even r =
     (let f = \<lfloor>r\<rfloor>; d = r - of_int f
      in if d < 1 / 2 then f else if d > 1 / 2 then f + 1 else if even f then f else f + 1)"

definition round_sig6 :: "real \<Rightarrow> real" where
  "round_sig6 x =
     (if x = 0 then 0
      else let e = \<lfloor>log 10 \<bar>x\<bar>\<rfloor>
           in of_int (round_half_even (x / 10 powi (e - 5))) * 10 powi (e - 5))"

definition put_double :: "real \<Rightarrow> token" where
  "put_double x =
     (let r = round_sig6 x
      in if r = of_int \<lfloor>r\<rfloor> \<and> \<bar>r\<bar> < 1000000 then IntTok \<lfloor>r\<rfloor> else RealTok r)"

definition put_cell :: "real grid \<Rightarrow> nat \<Rightarrow> nat \<Rightarrow> token list \<Rightarrow> error + token list" where
  "put_cell g y x out =
     (if in_grid g y x then Inr (out @ [put_double (g ! y ! x)]) else Inl OutOfBounds)"

text \<open>
  \<^verbatim>\<open>saveState\<close>: \<open>writable\<close> says whether the output file could be created; the result
  is the return value and the text written.
\<close>

definition saveState :: "fhn \<Rightarrow> bool \<Rightarrow> error + (bool \<times> token list)" where
  "saveState m writable =
     (if \<not> writable then Inr (False, [])
      else
        let header = [IntTok (int (fhn_width m)), IntTok (int (fhn_height m)), put_double (fhn_time m),
                      put_double (fhn_a m), put_double (fhn_b m), put_double (fhn_c m),
                      put_double (fhn_d m), put_double (fhn_du m), put_double (fhn_dv m)]
        in case for_loop [0..<fhn_height m]
                  (\<lambda>y. for_loop [0..<fhn_width m] (\<lambda>x. put_cell (fhn_u m) y x)) header of
             Inl e \<Rightarrow> Inl e
           | Inr out_u \<Rightarrow>
          (case for_loop [0..<fhn_height m]
                  (\<lambda>y. for_loop [0..<fhn_width m] (\<lambda>x. put_cell (fhn_v m) y x)) out_u of
             Inl e \<Rightarrow> Inl e
           | Inr out_v \<Rightarrow> Inr (True, out_v)))"

text \<open>
  The two read loops of \<^verbatim>\<open>loadState\<close> extract straight into the live field and return
  \<^verbatim>\<open>false\<close> from the middle of the loop at the first failed extraction.
\<close>

fun read_field_row ::
  "nat list \<Rightarrow> nat \<Rightarrow> istream \<times> real grid \<Rightarrow> error + (bool \<times> istream \<times> real grid)" where
  "read_field_row [] y sg = Inr (True, sg)"
| "read_field_row (x # xs) y sg =
     (if \<not> in_grid (snd sg) y x then Inl OutOfBounds
      else let r = extract_double (fst sg) (snd sg ! y ! x);
               g' = grid_set (snd sg) y x (fst r)
           in if is_fail (snd r) then Inr (False, snd r, g')
              else read_field_row xs y (snd r, g'))"

fun read_field ::
  "nat list \<Rightarrow> nat \<Rightarrow> istream \<times> real grid \<Rightarrow> error + (bool \<times> istream \<times> real grid)" where
  "read_field [] w sg = Inr (True, sg)"
| "read_field (y # ys) w sg =
     (case read_field_row [0..<w] y sg of
        Inl e \<Rightarrow> Inl e
      | Inr r \<Rightarrow> if fst r then read_field ys w (snd r) else Inr r)"

text \<open>
  \<^verbatim>\<open>loadState\<close>: \<open>file\<close> is \<open>None\<close> when the file cannot be opened. The locals
  \<^verbatim>\<open>file_width\<close> and \<^verbatim>\<open>file_height\<close> start uninitialised (\<open>None\<close>); comparing one
  that no extraction has written is the fault \<open>IndeterminateValue\<close>. The time, the
  parameters and the coefficients are extracted straight into the members.
\<close>

definition loadState :: "fhn \<Rightarrow> token list option \<Rightarrow> error + (bool \<times> fhn)" where
  "loadState m file =
     (case file of
        None \<Rightarrow> Inr (False, m)
      | Some toks \<Rightarrow>
          let s0 = \<lparr>is_toks = toks, is_fail = False\<rparr>;
              rw = extract_int s0 None;
              rh = extract_int (snd rw) None;
              rt = extract_double (snd rh) (fhn_time m);
              m1 = m\<lparr>fhn_time := fst rt\<rparr>
          in case fst rw of
               None \<Rightarrow> Inl IndeterminateValue
             | Some file_width \<Rightarrow>
                 if file_width \<noteq> int (fhn_width m) then Inr (False, m1)
                 else case fst rh of
                   None \<Rightarrow> Inl IndeterminateValue
                 | Some file_height \<Rightarrow>
                     if file_height \<noteq> int (fhn_height m) then Inr (False, m1)
                     else
                       let ra = extract_double (snd rt) (fhn_a m1);
                           rb = extract_double (snd ra) (fhn_b m1);
                           rc = extract_double (snd rb) (fhn_c m1);
                           rd = extract_double (snd rc) (fhn_d m1);
                           rdu = extract_double (snd rd) (fhn_du m1);
                           rdv = extract_double (snd rdu) (fhn_dv m1);
                           m2 = m1\<lparr>fhn_a := fst ra, fhn_b := fst rb, fhn_c := fst rc,
                                   fhn_d := fst rd, fhn_du := fst rdu, fhn_dv := fst rdv\<rparr>
                       in case read_field [0..<fhn_height m2] (fhn_width m2) (snd rdv, fhn_u m2) of
                            Inl e \<Rightarrow> Inl e
                          | Inr ru \<Rightarrow>
                              let m3 = m2\<lparr>fhn_u := snd (snd ru)\<rparr>
                              in if \<not> fst ru then Inr (False, m3)
                                 else case read_field [0..<fhn_height m3] (fhn_width m3)
                                             (fst (snd ru), fhn_v m3) of
                                        Inl e \<Rightarrow> Inl e
                                      | Inr rv \<Rightarrow>
                                          let m4 = m3\<lparr>fhn_v := snd (snd rv)\<rparr>
                                          in if \<not> fst rv then Inr (False, m4) else Inr (True, m4))"

text \<open>
  \<^verbatim>\<open>setInitialConditions\<close> checks the number of rows and the length of row 0 of both
  arguments, then copies cell by cell.
\<close>

definition copy_cell ::
  "real grid \<Rightarrow> real grid \<Rightarrow> nat \<Rightarrow> nat \<Rightarrow> real grid \<times> real grid \<Rightarrow> error + real grid \<times> real grid" where
  "copy_cell u_init v_init y x s =
     (if in_grid u_init y x \<and> in_grid v_init y x \<and> in_grid (fst s) y x \<and> in_grid (snd s) y x
      then Inr (grid_set (fst s) y x (u_init ! y ! x), grid_set (snd s) y x (v_init ! y ! x))
      else Inl OutOfBounds)"

definition setInitialConditions :: "fhn \<Rightarrow> real grid \<Rightarrow> real grid \<Rightarrow> error + fhn" where
  "setInitialConditions m u_init v_init =
     (if length u_init \<noteq> fhn_height m \<or> length v_init \<noteq> fhn_height m \<or>
         (fhn_height m > 0 \<and> (length (u_init ! 0) \<noteq> fhn_width m \<or> length (v_init ! 0) \<noteq> fhn_width m))
      then Inr m
      else case for_loop [0..<fhn_height m]
                  (\<lambda>y. for_loop [0..<fhn_width m] (\<lambda>x. copy_cell u_init v_init y x))
                  (fhn_u m, fhn_v m) of
             Inl e \<Rightarrow> Inl e
           | Inr s \<Rightarrow> Inr (m\<lparr>fhn_u := fst s, fhn_v := snd s\<rparr>))"

section \<open>The detailed ionic models (CardiacElectrophysiology)\<close>

text \<open>The base class: grid, clock, conductivity and the tissue mask.\<close>

record cardiac =
  ce_width :: nat
  ce_height :: nat
  ce_dt :: real
  ce_time :: real
  ce_conductivity :: real
  ce_mi_region :: "bool grid"

definition setConductivity :: "'a cardiac_scheme \<Rightarrow> real \<Rightarrow> 'a cardiac_scheme" where
  "setConductivity m conductivity = m\<lparr>ce_conductivity := conductivity\<rparr>"

definition setMIRegion :: "'a cardiac_scheme \<Rightarrow> bool grid \<Rightarrow> 'a cardiac_scheme" where
  "setMIRegion m mi_region =
     (if length mi_region \<noteq> ce_height m \<or> (ce_height m > 0 \<and> length (mi_region ! 0) \<noteq> ce_width m)
      then m
      else m\<lparr>ce_mi_region := mi_region\<rparr>)"

definition ce_diffusion_cell ::
  "'a cardiac_scheme \<Rightarrow> real grid \<Rightarrow> nat \<Rightarrow> nat \<Rightarrow> real grid \<Rightarrow> error + real grid" where
  "ce_diffusion_cell m grid y x result =
     (if \<not> in_grid (ce_mi_region m) y x then Inl OutOfBounds
      else if ce_mi_region m ! y ! x then
        (if in_grid result y x then Inr (grid_set result y x 0.0) else Inl OutOfBounds)
      else if in_grid grid (y - 1) x \<and> in_grid grid (y + 1) x \<and> in_grid grid y (x - 1)
              \<and> in_grid grid y (x + 1) \<and> in_grid grid y x \<and> in_grid result y x
      then let laplacian = grid ! (y - 1) ! x + grid ! (y + 1) ! x + grid ! y ! (x - 1)
                           + grid ! y ! (x + 1) - 4.0 * grid ! y ! x
           in Inr (grid_set result y x (ce_conductivity m * laplacian))
      else Inl OutOfBounds)"

definition ce_applyDiffusion ::
  "'a cardiac_scheme \<Rightarrow> real grid \<Rightarrow> real grid \<Rightarrow> error + real grid" where
  "ce_applyDiffusion m grid result =
     for_loop [1..<ce_height m - 1]
       (\<lambda>y. for_loop [1..<ce_width m - 1] (\<lambda>x. ce_diffusion_cell m grid y x)) result"

subsection \<open>Detailed Ionic A (LuoRudyModel)\<close>

record luo_rudy = cardiac +
  lr_V :: "real grid"
  lr_m :: "real grid"
  lr_h :: "real grid"
  lr_j :: "real grid"
  lr_xr :: "real grid"
  lr_xs :: "real grid"
  lr_d :: "real grid"
  lr_f :: "real grid"
  lr_fca :: "real grid"
  lr_Cai :: "real grid"
  lr_CaSR :: "real grid"
  lr_GNa :: real
  lr_Gsi :: real
  lr_GK :: real
  lr_GK1 :: real
  lr_Gb :: real
  lr_GCaL :: real

definition lr_setCellType :: "luo_rudy \<Rightarrow> string \<Rightarrow> luo_rudy" where
  "lr_setCellType m cell_type =
     (if cell_type = ''normal'' then
        m\<lparr>lr_GNa := 23.0, lr_Gsi := 0.09, lr_GK := 0.282, lr_GK1 := 0.6047,
          lr_Gb := 0.03921, lr_GCaL := 0.000175\<rparr>
      else if cell_type = ''ischemic'' then
        m\<lparr>lr_GNa := 15.0, lr_Gsi := 0.06, lr_GK := 0.2, lr_GK1 := 0.4,
          lr_Gb := 0.03, lr_GCaL := 0.00012\<rparr>
      else if cell_type = ''infarcted'' then
        m\<lparr>lr_GNa := 2.0, lr_Gsi := 0.01, lr_GK := 0.05, lr_GK1 := 0.1,
          lr_Gb := 0.01, lr_GCaL := 0.00002\<rparr>
      else m)"

definition LuoRudyModel :: "nat \<Rightarrow> nat \<Rightarrow> real \<Rightarrow> luo_rudy" where
  "LuoRudyModel w h dt =
     lr_setCellType
       \<lparr>ce_width = w, ce_height = h, ce_dt = dt, ce_time = 0.0, ce_conductivity = 1.0,
        ce_mi_region = new_grid h w False,
        lr_V = new_grid h w (-84.0), lr_m = new_grid h w 0.0, lr_h = new_grid h w 1.0,
        lr_j = new_grid h w 1.0, lr_xr = new_grid h w 0.0, lr_xs = new_grid h w 0.0,
        lr_d = new_grid h w 0.0, lr_f = new_grid h w 1.0, lr_fca = new_grid h w 1.0,
        lr_Cai = new_grid h w 0.0002, lr_CaSR = new_grid h w 0.2,
        lr_GNa = 0, lr_Gsi = 0, lr_GK = 0, lr_GK1 = 0, lr_Gb = 0, lr_GCaL = 0\<rparr>
       ''normal''"

text \<open>
  \<^verbatim>\<open>calculateIonicCurrents\<close> returns a \<^verbatim>\<open>std::map<std::string, double>\<close>; reading a key
  with \<^verbatim>\<open>operator[]\<close> yields the stored value, or 0.0 for a key never stored.
\<close>

type_synonym currents = "string \<Rightarrow> real"

definition lr_calculateIonicCurrents :: "luo_rudy \<Rightarrow> nat \<Rightarrow> nat \<Rightarrow> currents" where
  "lr_calculateIonicCurrents m x y =
     (let V = lr_V m ! y ! x;
          ENa = 54.4;
          ECa = 130.0;
          EK = -77.0
      in (\<lambda>_. 0.0)
         (''INa'' := lr_GNa m * lr_m m ! y ! x * lr_m m ! y ! x * lr_m m ! y ! x * lr_h m ! y ! x
                      * lr_j m ! y ! x * (V - ENa),
          ''ICaL'' := lr_GCaL m * lr_d m ! y ! x * lr_f m ! y ! x * lr_fca m ! y ! x * (V - ECa),
          ''IK'' := lr_GK m * lr_xr m ! y ! x * lr_xs m ! y ! x * (V - EK),
          ''IK1'' := lr_GK1 m * (V - EK) / (1 + exp (0.07 * (V + 80))),
          ''Ib'' := lr_Gb m * (V + 59.87),
          ''ICaT'' := 0.0005 * lr_d m ! y ! x * (V - ECa)))"

definition lr_cell_in_range :: "luo_rudy \<Rightarrow> nat \<Rightarrow> nat \<Rightarrow> bool" where
  "lr_cell_in_range m y x \<longleftrightarrow>
     in_grid (lr_V m) y x \<and> in_grid (lr_m m) y x \<and> in_grid (lr_h m) y x \<and> in_grid (lr_j m) y x \<and>
     in_grid (lr_xr m) y x \<and> in_grid (lr_xs m) y x \<and> in_grid (lr_d m) y x \<and> in_grid (lr_f m) y x \<and>
     in_grid (lr_fca m) y x \<and> in_grid (lr_Cai m) y x"

text \<open>
  The body of the update loop. It assigns the local \<^verbatim>\<open>V_new\<close> and, in place, the
  members \<^verbatim>\<open>m_\<close>, \<^verbatim>\<open>h_\<close>, \<^verbatim>\<open>xr_\<close> and \<^verbatim>\<open>Cai_\<close>. \<^verbatim>\<open>std::max(a, b)\<close> and
  \<^verbatim>\<open>std::min(a, b)\<close> are \<open>max\<close> and \<open>min\<close> of the reals.
\<close>

definition lr_step_cell ::
  "real grid \<Rightarrow> nat \<Rightarrow> nat \<Rightarrow> real grid \<times> luo_rudy \<Rightarrow> error + real grid \<times> luo_rudy" where
  "lr_step_cell dV_dt y x s =
     (let V_new = fst s; m = snd s in
      if \<not> in_grid (ce_mi_region m) y x then Inl OutOfBounds
      else if ce_mi_region m ! y ! x then
        (if in_grid V_new y x \<and> in_grid (lr_V m) y x
         then Inr (grid_set V_new y x (lr_V m ! y ! x), m) else Inl OutOfBounds)
      else if \<not> (in_grid V_new y x \<and> in_grid dV_dt y x \<and> lr_cell_in_range m y x) then Inl OutOfBounds
      else
        let currents = lr_calculateIonicCurrents m x y;
            I_total = currents ''INa'' + currents ''ICaL'' + currents ''IK'' +
                      currents ''IK1'' + currents ''Ib'' + currents ''ICaT'';
            dV = - (I_total + dV_dt ! y ! x) * ce_dt m;
            V_new' = grid_set V_new y x (lr_V m ! y ! x + dV);
            V_val = lr_V m ! y ! x;
            alpha_m = 0.32 * (V_val + 47.13) / (1 - exp (- 0.1 * (V_val + 47.13)));
            beta_m = 0.08 * exp (- V_val / 11.0);
            m_val = lr_m m ! y ! x + ce_dt m * (alpha_m * (1 - lr_m m ! y ! x) - beta_m * lr_m m ! y ! x);
            alpha_h = 0.135 * exp (- (V_val + 80) / 6.8);
            beta_h = 3.56 * exp (0.079 * V_val) + 3100000 * exp (0.35 * V_val);
            h_val = lr_h m ! y ! x + ce_dt m * (alpha_h * (1 - lr_h m ! y ! x) - beta_h * lr_h m ! y ! x);
            alpha_xr = 0.0005 * exp (0.083 * (V_val + 50)) / (1 + exp (0.057 * (V_val + 50)));
            beta_xr = 0.0013 * exp (- 0.06 * (V_val + 20)) / (1 + exp (- 0.04 * (V_val + 20)));
            xr_val = lr_xr m ! y ! x + ce_dt m * (alpha_xr * (1 - lr_xr m ! y ! x) - beta_xr * lr_xr m ! y ! x);
            Cai_val = lr_Cai m ! y ! x + ce_dt m * 0.001 * (- currents ''ICaL'' - 0.0001 * lr_Cai m ! y ! x)
        in Inr (V_new',
                m\<lparr>lr_m := grid_set (lr_m m) y x m_val,
                  lr_h := grid_set (lr_h m) y x h_val,
                  lr_xr := grid_set (lr_xr m) y x xr_val,
                  lr_Cai := grid_set (lr_Cai m) y x (max 0.0001 (min 0.01 Cai_val))\<rparr>))"

definition lr_step :: "luo_rudy \<Rightarrow> error + luo_rudy" where
  "lr_step m =
     (let V_new = new_grid (ce_height m) (ce_width m) 0.0;
          dV_dt = new_grid (ce_height m) (ce_width m) 0.0
      in case ce_applyDiffusion m (lr_V m) dV_dt of
           Inl e \<Rightarrow> Inl e
         | Inr dV_dt \<Rightarrow>
        (case for_loop [0..<ce_height m]
                (\<lambda>y. for_loop [0..<ce_width m] (\<lambda>x. lr_step_cell dV_dt y x)) (V_new, m) of
           Inl e \<Rightarrow> Inl e
         | Inr s \<Rightarrow> Inr ((snd s)\<lparr>lr_V := fst s, ce_time := ce_time (snd s) + ce_dt (snd s)\<rparr>)))"

fun lr_run :: "nat \<Rightarrow> luo_rudy \<Rightarrow> error + luo_rudy" where
  "lr_run 0 m = Inr m"
| "lr_run (Suc n) m = (case lr_step m of Inl e \<Rightarrow> Inl e | Inr m' \<Rightarrow> lr_run n m')"

subsection \<open>Detailed Ionic B (TenTusscherModel)\<close>

record ten_tusscher = cardiac +
  tt_V :: "real grid"
  tt_m :: "real grid"
  tt_h :: "real grid"
  tt_j :: "real grid"
  tt_oa :: "real grid"
  tt_oi :: "real grid"
  tt_d :: "real grid"
  tt_f :: "real grid"
  tt_fca :: "real grid"
  tt_u :: "real grid"
  tt_v :: "real grid"
  tt_w :: "real grid"
  tt_Cai :: "real grid"
  tt_CaSR :: "real grid"
  tt_CaSS :: "real grid"
  tt_Nai :: "real grid"
  tt_Ki :: "real grid"
  tt_GNa :: real
  tt_GCaL :: real
  tt_GKr :: real
  tt_GKs :: real
  tt_GK1 :: real
  tt_Gto :: real
  tt_GNaCa :: real
  tt_GNaK :: real

definition tt_setVariant :: "ten_tusscher \<Rightarrow> string \<Rightarrow> ten_tusscher" where
  "tt_setVariant m variant =
     (if variant = ''epi'' then
        m\<lparr>tt_GNa := 75.0, tt_GCaL := 0.000175, tt_GKr := 0.046, tt_GKs := 0.0034,
          tt_GK1 := 0.1908, tt_Gto := 0.294, tt_GNaCa := 1000.0, tt_GNaK := 1.362\<rparr>
      else if variant = ''endo'' then
        m\<lparr>tt_GNa := 75.0, tt_GCaL := 0.000175, tt_GKr := 0.023, tt_GKs := 0.0034,
          tt_GK1 := 0.1908, tt_Gto := 0.073, tt_GNaCa := 1000.0, tt_GNaK := 1.362\<rparr>
      else if variant = ''mid'' then
        m\<lparr>tt_GNa := 75.0, tt_GCaL := 0.000175, tt_GKr := 0.023, tt_GKs := 0.0034,
          tt_GK1 := 0.1908, tt_Gto := 0.294, tt_GNaCa := 1000.0, tt_GNaK := 1.362\<rparr>
      else m)"

definition TenTusscherModel :: "nat \<Rightarrow> nat \<Rightarrow> real \<Rightarrow> ten_tusscher" where
  "TenTusscherModel w h dt =
     tt_setVariant
       \<lparr>ce_width = w, ce_height = h, ce_dt = dt, ce_time = 0.0, ce_conductivity = 1.0,
        ce_mi_region = new_grid h w False,
        tt_V = new_grid h w (-86.2), tt_m = new_grid h w 0.0, tt_h = new_grid h w 0.75,
        tt_j = new_grid h w 0.75, tt_oa = new_grid h w 0.0, tt_oi = new_grid h w 1.0,
        tt_d = new_grid h w 0.0, tt_f = new_grid h w 1.0, tt_fca = new_grid h w 1.0,
        tt_u = new_grid h w 0.0, tt_v = new_grid h w 1.0, tt_w = new_grid h w 1.0,
        tt_Cai = new_grid h w 0.0002, tt_CaSR = new_grid h w 0.2, tt_CaSS = new_grid h w 0.0002,
        tt_Nai = new_grid h w 11.6, tt_Ki = new_grid h w 138.3,
        tt_GNa = 0, tt_GCaL = 0, tt_GKr = 0, tt_GKs = 0, tt_GK1 = 0, tt_Gto = 0,
        tt_GNaCa = 0, tt_GNaK = 0\<rparr>
       ''epi''"

definition tt_calculateIonicCurrents :: "ten_tusscher \<Rightarrow> nat \<Rightarrow> nat \<Rightarrow> currents" where
  "tt_calculateIonicCurrents m x y =
     (let V = tt_V m ! y ! x;
          Cai = tt_Cai m ! y ! x;
          Nai = tt_Nai m ! y ! x;
          Ki = tt_Ki m ! y ! x;
          ENa = 54.4;
          ECa = 130.0;
          EKr = -77.0;
          EKs = -77.0
      in (\<lambda>_. 0.0)
         (''INa'' := tt_GNa m * tt_m m ! y ! x * tt_m m ! y ! x * tt_m m ! y ! x * tt_h m ! y ! x
                      * tt_j m ! y ! x * (V - ENa),
          ''ICaL'' := tt_GCaL m * tt_d m ! y ! x * tt_f m ! y ! x * tt_fca m ! y ! x * (V - ECa),
          ''IKr'' := tt_GKr m * sqrt (Ki / 5.4) * tt_u m ! y ! x * (V - EKr),
          ''IKs'' := tt_GKs m * tt_v m ! y ! x * (V - EKs),
          ''IK1'' := tt_GK1 m * sqrt (Ki / 5.4) * (V - EKr) / (1 + exp (0.07 * (V + 80))),
          ''Ito'' := tt_Gto m * tt_oa m ! y ! x * tt_oi m ! y ! x * (V - EKr),
          ''INaCa'' := tt_GNaCa m * (exp (0.03743 * V) * Nai * Nai * Nai * Cai -
                                    exp (- 0.03743 * V) * 1.0 * 1.0 * 1.0 * 1.4) /
                       (1 + 0.1 * exp (- 0.03743 * V)),
          ''INaK'' := tt_GNaK m * Ki / (Ki + 1.0) * Nai / (Nai + 40.0)))"

definition tt_cell_in_range :: "ten_tusscher \<Rightarrow> nat \<Rightarrow> nat \<Rightarrow> bool" where
  "tt_cell_in_range m y x \<longleftrightarrow>
     in_grid (tt_V m) y x \<and> in_grid (tt_m m) y x \<and> in_grid (tt_h m) y x \<and> in_grid (tt_j m) y x \<and>
     in_grid (tt_oa m) y x \<and> in_grid (tt_oi m) y x \<and> in_grid (tt_d m) y x \<and> in_grid (tt_f m) y x \<and>
     in_grid (tt_fca m) y x \<and> in_grid (tt_u m) y x \<and> in_grid (tt_v m) y x \<and>
     in_grid (tt_Cai m) y x \<and> in_grid (tt_Nai m) y x \<and> in_grid (tt_Ki m) y x"

definition tt_step_cell ::
  "real grid \<Rightarrow> nat \<Rightarrow> nat \<Rightarrow> real grid \<times> ten_tusscher \<Rightarrow> error + real grid \<times> ten_tusscher" where
  "tt_step_cell dV_dt y x s =
     (let V_new = fst s; m = snd s in
      if \<not> in_grid (ce_mi_region m) y x then Inl OutOfBounds
      else if ce_mi_region m ! y ! x then
        (if in_grid V_new y x \<and> in_grid (tt_V m) y x
         then Inr (grid_set V_new y x (tt_V m ! y ! x), m) else Inl OutOfBounds)
      else if \<not> (in_grid V_new y x \<and> in_grid dV_dt y x \<and> tt_cell_in_range m y x) then Inl OutOfBounds
      else
        let currents = tt_calculateIonicCurrents m x y;
            I_total = currents ''INa'' + currents ''ICaL'' + currents ''IKr'' +
                      currents ''IKs'' + currents ''IK1'' + currents ''Ito'' +
                      currents ''INaCa'' + currents ''INaK'';
            dV = - (I_total + dV_dt ! y ! x) * ce_dt m;
            V_new' = grid_set V_new y x (tt_V m ! y ! x + dV);
            V_val = tt_V m ! y ! x;
            alpha_m = 0.32 * (V_val + 47.13) / (1 - exp (- 0.1 * (V_val + 47.13)));
            beta_m = 0.08 * exp (- V_val / 11.0);
            m_val = tt_m m ! y ! x + ce_dt m * (alpha_m * (1 - tt_m m ! y ! x) - beta_m * tt_m m ! y ! x);
            alpha_xr = 0.0005 * exp (0.083 * (V_val + 50)) / (1 + exp (0.057 * (V_val + 50)));
            beta_xr = 0.0013 * exp (- 0.06 * (V_val + 20)) / (1 + exp (- 0.04 * (V_val + 20)));
            u_val = tt_u m ! y ! x + ce_dt m * (alpha_xr * (1 - tt_u m ! y ! x) - beta_xr * tt_u m ! y ! x);
            Cai_val = tt_Cai m ! y ! x + ce_dt m * 0.001 * (- currents ''ICaL'' - 0.0001 * tt_Cai m ! y ! x)
        in Inr (V_new',
                m\<lparr>tt_m := grid_set (tt_m m) y x m_val,
                  tt_u := grid_set (tt_u m) y x u_val,
                  tt_Cai := grid_set (tt_Cai m) y x (max 0.0001 (min 0.01 Cai_val))\<rparr>))"

definition tt_step :: "ten_tusscher \<Rightarrow> error + ten_tusscher" where
  "tt_step m =
     (let V_new = new_grid (ce_height m) (ce_width m) 0.0;
          dV_dt = new_grid (ce_height m) (ce_width m) 0.0
      in case ce_applyDiffusion m (tt_V m) dV_dt of
           Inl e \<Rightarrow> Inl e
         | Inr dV_dt \<Rightarrow>
        (case for_loop [0..<ce_height m]
                (\<lambda>y. for_loop [0..<ce_width m] (\<lambda>x. tt_step_cell dV_dt y x)) (V_new, m) of
           Inl e \<Rightarrow> Inl e
         | Inr s \<Rightarrow> Inr ((snd s)\<lparr>tt_V := fst s, ce_time := ce_time (snd s) + ce_dt (snd s)\<rparr>)))"

fun tt_run :: "nat \<Rightarrow> ten_tusscher \<Rightarrow> error + ten_tusscher" where
  "tt_run 0 m = Inr m"
| "tt_run (Suc n) m = (case tt_step m of Inl e \<Rightarrow> Inl e | Inr m' \<Rightarrow> tt_run n m')"

section \<open>Notions used in the proofs\<close>

definition cell_at :: "'a grid \<Rightarrow> nat \<times> nat \<Rightarrow> 'a" where
  "cell_at g k = g ! fst k ! snd k"

text \<open>The five-point stencil and the cells the diffusion loops visit.\<close>

definition laplacian5 :: "real grid \<Rightarrow> nat \<Rightarrow> nat \<Rightarrow> real" where
  "laplacian5 g y x =
     g ! (y - 1) ! x + g ! (y + 1) ! x + g ! y ! (x - 1) + g ! y ! (x + 1) - 4 * g ! y ! x"

definition interior :: "nat \<Rightarrow> nat \<Rightarrow> nat \<Rightarrow> nat \<Rightarrow> bool" where
  "interior h w y x \<longleftrightarrow> 1 \<le> y \<and> y < h - 1 \<and> 1 \<le> x \<and> x < w - 1"

definition fhn_vars_ok :: "nat \<Rightarrow> nat \<Rightarrow> fhn_vars \<Rightarrow> bool" where
  "fhn_vars_ok h w s \<longleftrightarrow> is_grid h w (fv_du_dt s) \<and> is_grid h w (fv_dv_dt s)
      \<and> is_grid h w (fv_u_new s) \<and> is_grid h w (fv_v_new s)"

definition fhn_vars_at :: "fhn_vars \<Rightarrow> nat \<times> nat \<Rightarrow> real \<times> real \<times> real \<times> real" where
  "fhn_vars_at s k = (cell_at (fv_du_dt s) k, cell_at (fv_dv_dt s) k,
                      cell_at (fv_u_new s) k, cell_at (fv_v_new s) k)"

definition fhn_cell_upd ::
  "fhn \<Rightarrow> nat \<times> nat \<Rightarrow> real \<times> real \<times> real \<times> real \<Rightarrow> real \<times> real \<times> real \<times> real" where
  "fhn_cell_upd m k c =
     (let u_val = cell_at (fhn_u m) k; v_val = cell_at (fhn_v m) k;
          du = fst c + reactionU u_val v_val (cell_at (fhn_stimulus m) k);
          dv = fst (snd c) + reactionV m u_val v_val
      in (du, dv, u_val + fhn_dt m * du, v_val + fhn_dt m * dv))"

text \<open>
  The diffusion term \<^verbatim>\<open>step\<close> of the Simplified Excitable model holds for a cell before
  it adds the reaction term.
\<close>

definition fhn_diffusion_term :: "fhn \<Rightarrow> real grid \<Rightarrow> real \<Rightarrow> nat \<Rightarrow> nat \<Rightarrow> real" where
  "fhn_diffusion_term m grid coeff y x =
     (if coeff > 0 \<and> interior (fhn_height m) (fhn_width m) y x then coeff * laplacian5 grid y x else 0)"

definition mask_covers :: "nat \<Rightarrow> nat \<Rightarrow> bool grid \<Rightarrow> bool" where
  "mask_covers h w mi \<longleftrightarrow> list_all (\<lambda>y. list_all (\<lambda>x. in_grid mi y x) [0..<w]) [0..<h]"

definition ce_diffusion_value :: "'a cardiac_scheme \<Rightarrow> real grid \<Rightarrow> nat \<Rightarrow> nat \<Rightarrow> real" where
  "ce_diffusion_value m grid y x =
     (if ce_mi_region m ! y ! x then 0 else ce_conductivity m * laplacian5 grid y x)"

text \<open>Well-formed states of the ionic models, and the invariant of their update loops.\<close>

definition lr_wf :: "luo_rudy \<Rightarrow> bool" where
  "lr_wf m \<longleftrightarrow>
     list_all (is_grid (ce_height m) (ce_width m))
       [lr_V m, lr_m m, lr_h m, lr_j m, lr_xr m, lr_xs m, lr_d m, lr_f m, lr_fca m, lr_Cai m, lr_CaSR m]
     \<and> mask_covers (ce_height m) (ce_width m) (ce_mi_region m)"

definition lr_loop_ok :: "luo_rudy \<Rightarrow> real grid \<times> luo_rudy \<Rightarrow> bool" where
  "lr_loop_ok m0 s \<longleftrightarrow>
     is_grid (ce_height m0) (ce_width m0) (fst s) \<and> lr_wf (snd s) \<and>
     snd s = m0\<lparr>lr_m := lr_m (snd s), lr_h := lr_h (snd s), lr_xr := lr_xr (snd s),
               lr_Cai := lr_Cai (snd s)\<rparr>"

definition lr_loop_at :: "real grid \<times> luo_rudy \<Rightarrow> nat \<times> nat \<Rightarrow> real \<times> real" where
  "lr_loop_at s k = (cell_at (fst s) k, cell_at (lr_Cai (snd s)) k)"

definition scar_rel :: "bool grid \<Rightarrow> real grid \<Rightarrow> nat \<times> nat \<Rightarrow> real \<times> real \<Rightarrow> real \<times> real \<Rightarrow> bool" where
  "scar_rel mi V k c c' \<longleftrightarrow>
     (if cell_at mi k then fst c' = cell_at V k \<and> snd c' = snd c
      else 0.0001 \<le> snd c' \<and> snd c' \<le> 0.01)"

definition tt_wf :: "ten_tusscher \<Rightarrow> bool" where
  "tt_wf m \<longleftrightarrow>
     list_all (is_grid (ce_height m) (ce_width m))
       [tt_V m, tt_m m, tt_h m, tt_j m, tt_oa m, tt_oi m, tt_d m, tt_f m, tt_fca m, tt_u m, tt_v m,
        tt_w m, tt_Cai m, tt_CaSR m, tt_CaSS m, tt_Nai m, tt_Ki m]
     \<and> mask_covers (ce_height m) (ce_width m) (ce_mi_region m)"

definition tt_loop_ok :: "ten_tusscher \<Rightarrow> real grid \<times> ten_tusscher \<Rightarrow> bool" where
  "tt_loop_ok m0 s \<longleftrightarrow>
     is_grid (ce_height m0) (ce_width m0) (fst s) \<and> tt_wf (snd s) \<and>
     snd s = m0\<lparr>tt_m := tt_m (snd s), tt_u := tt_u (snd s), tt_Cai := tt_Cai (snd s)\<rparr>"

definition tt_loop_at :: "real grid \<times> ten_tusscher \<Rightarrow> nat \<times> nat \<Rightarrow> real \<times> real" where
  "tt_loop_at s k = (cell_at (fst s) k, cell_at (tt_Cai (snd s)) k)"

definition cai_in_range :: "real grid \<Rightarrow> bool" where
  "cai_in_range g \<longleftrightarrow> list_all (list_all (\<lambda>c. 0.0001 \<le> c \<and> c \<le> 0.01)) g"

text \<open>Agreement of two Simplified Excitable states on everything a step reads.\<close>

definition fhn_agree :: "fhn \<Rightarrow> fhn \<Rightarrow> bool" where
  "fhn_agree m1 m2 \<longleftrightarrow>
     fhn_width m1 = fhn_width m2 \<and> fhn_height m1 = fhn_height m2 \<and> fhn_dt m1 = fhn_dt m2 \<and>
     fhn_time m1 = fhn_time m2 \<and> fhn_a m1 = fhn_a m2 \<and> fhn_b m1 = fhn_b m2 \<and>
     fhn_c m1 = fhn_c m2 \<and> fhn_du m1 = fhn_du m2 \<and> fhn_dv m1 = fhn_dv m2 \<and>
     fhn_u m1 = fhn_u m2 \<and> fhn_v m1 = fhn_v m2 \<and> fhn_stimulus m1 = fhn_stimulus m2"

text \<open>Overwriting the two members of the Luo-Rudy state that a step never reads.\<close>

definition lr_unread :: "real grid \<Rightarrow> real \<Rightarrow> luo_rudy \<Rightarrow> luo_rudy" where
  "lr_unread c g m = m\<lparr>lr_CaSR := c, lr_Gsi := g\<rparr>"

text \<open>The value an extraction of a \<^verbatim>\<open>double\<close> stores for a token.\<close>

definition tok_value :: "token \<Rightarrow> real" where
  "tok_value t = (case t of IntTok n \<Rightarrow> of_int n | RealTok r \<Rightarrow> r | BadTok \<Rightarrow> 0)"

text \<open>\<^verbatim>\<open>loadState\<close> after a header that matches the grid and converts.\<close>

definition header_loaded :: "fhn \<Rightarrow> token list \<Rightarrow> fhn" where
  "header_loaded m hdr =
     m\<lparr>fhn_time := tok_value (hdr ! 0), fhn_a := tok_value (hdr ! 1), fhn_b := tok_value (hdr ! 2),
       fhn_c := tok_value (hdr ! 3), fhn_d := tok_value (hdr ! 4), fhn_du := tok_value (hdr ! 5),
       fhn_dv := tok_value (hdr ! 6)\<rparr>"

text \<open>A small model used to instantiate the theorems.\<close>

definition fhn_example :: fhn where
  "fhn_example =
     (FitzHughNagumo 3 3 (1 / 2))\<lparr>fhn_u := [[0, 0, 0], [0, 1, 0], [0, 0, 0]],
                                   fhn_stimulus := [[0, 0, 0], [0, 2, 0], [0, 0, 0]]\<rparr>"

definition ce_example :: cardiac where
  "ce_example =
     \<lparr>ce_width = 4, ce_height = 3, ce_dt = 1 / 2, ce_time = 0, ce_conductivity = 2,
      ce_mi_region = [[False, False, False, False], [False, False, True, False],
                      [False, False, False, False]]\<rparr>"

definition grid_example :: "real grid" where
  "grid_example = [[1, 2, 3, 4], [5, 6, 7, 8], [9, 10, 11, 13]]"

definition ce_small :: cardiac where
  "ce_small =
     \<lparr>ce_width = 2, ce_height = 2, ce_dt = 1 / 2, ce_time = 0, ce_conductivity = 2,
      ce_mi_region = [[False, False], [False, True]]\<rparr>"

definition grid_small :: "real grid" where
  "grid_small = [[1, 2], [3, 4]]"

definition mask_example :: "bool grid" where
  "mask_example = [[False, False, False, False], [False, False, True, False],
                   [False, False, False, False]]"

definition fhn_example_scratch :: fhn where
  "fhn_example_scratch =
     fhn_example\<lparr>fhn_d := 7, fhn_u_new := [[1, 2, 3], [4, 5, 6], [7, 8, 9]],
                  fhn_v_new := [[9, 8, 7], [6, 5, 4], [3, 2, 1]]\<rparr>"

text \<open>Inputs whose first row fits the grid and whose second row does not.\<close>

definition mask_long_row :: "bool grid" where
  "mask_long_row = [[False, False], [False, False, True]]"

definition mask_short_row :: "bool grid" where
  "mask_short_row = [[False, False], [True]]"

definition init_short_row :: "real grid" where
  "init_short_row = [[1, 2], [3]]"

definition init_long_row :: "real grid" where
  "init_long_row = [[1, 2], [3, 4, 5]]"

text \<open>
  A one-cell model with \<open>dt = 3\<close>, \<open>a = b = 0\<close> and \<open>c = 1\<close>, the state after
  \<^verbatim>\<open>addStimulus(0, 0, 1.0, 10.0)\<close>, and the state after the step that follows the call.
\<close>

definition fhn_stim_example :: fhn where
  "fhn_stim_example = setParameters (FitzHughNagumo 1 1 3) 0 0 1 0"

definition fhn_stim_set :: fhn where
  "fhn_stim_set = fhn_stim_example\<lparr>fhn_stimulus := [[1]]\<rparr>"

definition fhn_stim_stepped :: fhn where
  "fhn_stim_stepped = fhn_stim_set\<lparr>fhn_u := [[3]], fhn_time := 3\<rparr>"

text \<open>A one-cell state whose potential has seven significant digits, and two 2x2 states.\<close>

definition fhn_save_example :: fhn where
  "fhn_save_example = (FitzHughNagumo 1 1 (1 / 100))\<lparr>fhn_u := [[1234567]]\<rparr>"

definition fhn_load_example :: fhn where
  "fhn_load_example = (FitzHughNagumo 2 2 (1 / 100))\<lparr>fhn_u := [[1, 1], [1, 1]]\<rparr>"

definition fhn_load_fields :: fhn where
  "fhn_load_fields =
     (FitzHughNagumo 2 2 (1 / 100))\<lparr>fhn_u := [[11, 12], [13, 14]], fhn_v := [[21, 22], [23, 24]]\<rparr>"

section \<open>Facts about grids and loops\<close>

lemma is_grid_new_grid: "is_grid h w (new_grid h w v)"
  by (simp add: is_grid_def new_grid_def list_all_iff)

lemma is_grid_in_grid: "is_grid h w g \<Longrightarrow> y < h \<Longrightarrow> x < w \<Longrightarrow> in_grid g y x"
  by (auto simp: is_grid_def in_grid_def list_all_length)

lemma is_grid_grid_set: "is_grid h w g \<Longrightarrow> is_grid h w (grid_set g y x v)"
proof -
  assume g: "is_grid h w g"
  have "length ((grid_set g y x v) ! n) = w" if "n < length g" for n
    using g that by (cases "n = y") (auto simp: is_grid_def grid_set_def list_all_length)
  with g show ?thesis
    by (simp add: is_grid_def list_all_length grid_set_def)
qed

lemma grid_set_same: "in_grid g y x \<Longrightarrow> grid_set g y x v ! y ! x = v"
  by (simp add: in_grid_def grid_set_def)

lemma grid_set_other: "(y', x') \<noteq> (y, x) \<Longrightarrow> grid_set g y x v ! y' ! x' = g ! y' ! x'"
  by (cases "y < length g"; cases "y' = y"; simp add: grid_set_def list_update_beyond)

lemma cell_at_grid_set:
  "in_grid g y x \<Longrightarrow> cell_at (grid_set g y x v) k = (if k = (y, x) then v else cell_at g k)"
  by (cases k) (auto simp: cell_at_def grid_set_same grid_set_other)

lemma cell_at_grid_set_other: "k \<noteq> (y, x) \<Longrightarrow> cell_at (grid_set g y x v) k = cell_at g k"
  by (cases k) (auto simp: cell_at_def grid_set_other)

lemma in_grid_grid_set: "in_grid (grid_set g y x v) y' x' = in_grid g y' x'"
  by (cases "y < length g"; cases "y' = y"; simp add: in_grid_def grid_set_def list_update_beyond)

lemma new_grid_nth: "y < h \<Longrightarrow> x < w \<Longrightarrow> new_grid h w v ! y ! x = v"
  by (simp add: new_grid_def)

lemma is_grid_eqI:
  assumes "is_grid h w g" and "is_grid h w g'"
    and "\<And>y x. y < h \<Longrightarrow> x < w \<Longrightarrow> g ! y ! x = g' ! y ! x"
  shows "g = g'"
proof (rule nth_equalityI)
  show "length g = length g'" using assms(1,2) by (simp add: is_grid_def)
next
  fix y assume y: "y < length g"
  then have yh: "y < h" using assms(1) by (simp add: is_grid_def)
  have l: "length (g ! y) = w" "length (g' ! y) = w"
    using assms(1,2) yh by (auto simp: is_grid_def list_all_length)
  show "g ! y = g' ! y"
    by (rule nth_equalityI) (use l assms(3) yh in auto)
qed

text \<open>
  A loop whose iterations each rewrite their own, disjoint set of cells: after the loop
  every visited cell is related to its old content as one iteration relates it, and every
  other cell is as it was.
\<close>

lemma for_loop_cells:
  fixes view :: "'s \<Rightarrow> 'k \<Rightarrow> 'c"
  assumes "ok s" and "distinct is"
    and "\<And>i j. i \<in> set is \<Longrightarrow> j \<in> set is \<Longrightarrow> i \<noteq> j \<Longrightarrow> K i \<inter> K j = {}"
    and "\<And>i s. i \<in> set is \<Longrightarrow> ok s \<Longrightarrow>
           \<exists>s'. body i s = Inr s' \<and> ok s' \<and>
                (\<forall>k. if k \<in> K i then R k (view s k) (view s' k) else view s' k = view s k)"
  shows "\<exists>s'. for_loop is body s = Inr s' \<and> ok s' \<and>
              (\<forall>k. if k \<in> (\<Union>i\<in>set is. K i) then R k (view s k) (view s' k) else view s' k = view s k)"
  using assms
proof (induction "is" arbitrary: s)
  case Nil
  then show ?case by simp
next
  case (Cons i "is")
  from Cons.prems(4)[of i s] Cons.prems(1)
  obtain s1 where s1: "body i s = Inr s1" "ok s1"
    "\<forall>k. if k \<in> K i then R k (view s k) (view s1 k) else view s1 k = view s k"
    by auto
  have "\<exists>s'. for_loop is body s1 = Inr s' \<and> ok s' \<and>
          (\<forall>k. if k \<in> (\<Union>i\<in>set is. K i) then R k (view s1 k) (view s' k) else view s' k = view s1 k)"
  proof (rule Cons.IH)
    show "ok s1" by (rule s1(2))
    show "distinct is" using Cons.prems(2) by simp
    show "\<And>i j. i \<in> set is \<Longrightarrow> j \<in> set is \<Longrightarrow> i \<noteq> j \<Longrightarrow> K i \<inter> K j = {}"
      using Cons.prems(3) by simp
    show "\<And>i s. i \<in> set is \<Longrightarrow> ok s \<Longrightarrow>
           \<exists>s'. body i s = Inr s' \<and> ok s' \<and>
                (\<forall>k. if k \<in> K i then R k (view s k) (view s' k) else view s' k = view s k)"
      using Cons.prems(4) by simp
  qed
  then obtain s' where s': "for_loop is body s1 = Inr s'" "ok s'"
    "\<forall>k. if k \<in> (\<Union>i\<in>set is. K i) then R k (view s1 k) (view s' k) else view s' k = view s1 k"
    by blast
  have disj: "\<And>j. j \<in> set is \<Longrightarrow> K i \<inter> K j = {}"
    using Cons.prems(2) Cons.prems(3)[of i] by auto
  have "\<forall>k. if k \<in> (\<Union>i\<in>set (i # is). K i) then R k (view s k) (view s' k) else view s' k = view s k"
  proof
    fix k
    show "if k \<in> (\<Union>i\<in>set (i # is). K i) then R k (view s k) (view s' k) else view s' k = view s k"
    proof (cases "k \<in> K i")
      case True
      then have "k \<notin> (\<Union>i\<in>set is. K i)" using disj by auto
      with True spec[OF s'(3), of k] spec[OF s1(3), of k] show ?thesis by simp
    next
      case False
      with spec[OF s'(3), of k] spec[OF s1(3), of k] show ?thesis by (auto split: if_splits)
    qed
  qed
  with s1(1) s'(1,2) show ?case by auto
qed

lemma for_loop2_cells:
  fixes view :: "'s \<Rightarrow> nat \<times> nat \<Rightarrow> 'c"
  assumes "ok s"
    and cell: "\<And>y x s. y0 \<le> y \<Longrightarrow> y < y1 \<Longrightarrow> x0 \<le> x \<Longrightarrow> x < x1 \<Longrightarrow> ok s \<Longrightarrow>
           \<exists>s'. body y x s = Inr s' \<and> ok s' \<and>
                (\<forall>k. if k = (y, x) then R k (view s k) (view s' k) else view s' k = view s k)"
  shows "\<exists>s'. for_loop [y0..<y1] (\<lambda>y. for_loop [x0..<x1] (body y)) s = Inr s' \<and> ok s' \<and>
              (\<forall>y x. if y0 \<le> y \<and> y < y1 \<and> x0 \<le> x \<and> x < x1
                     then R (y, x) (view s (y, x)) (view s' (y, x))
                     else view s' (y, x) = view s (y, x))"
proof -
  have row: "\<exists>s'. for_loop [x0..<x1] (body y) s = Inr s' \<and> ok s' \<and>
                (\<forall>k. if k \<in> {y} \<times> {x0..<x1} then R k (view s k) (view s' k) else view s' k = view s k)"
    if "y \<in> set [y0..<y1]" and "ok s" for y s
  proof -
    have "\<exists>s'. for_loop [x0..<x1] (body y) s = Inr s' \<and> ok s' \<and>
            (\<forall>k. if k \<in> (\<Union>x\<in>set [x0..<x1]. {(y, x)}) then R k (view s k) (view s' k)
                  else view s' k = view s k)"
    proof (rule for_loop_cells[where ok = ok])
      show "ok s" by (rule that(2))
      show "distinct [x0..<x1]" by simp
      show "\<And>i j. i \<in> set [x0..<x1] \<Longrightarrow> j \<in> set [x0..<x1] \<Longrightarrow> i \<noteq> j \<Longrightarrow> {(y, i)} \<inter> {(y, j)} = {}"
        by simp
      show "\<And>i s. i \<in> set [x0..<x1] \<Longrightarrow> ok s \<Longrightarrow>
              \<exists>s'. body y i s = Inr s' \<and> ok s' \<and>
                (\<forall>k. if k \<in> {(y, i)} then R k (view s k) (view s' k) else view s' k = view s k)"
        using cell[of y] that(1) by simp
    qed
    moreover have "(\<Union>x\<in>set [x0..<x1]. {(y, x)}) = {y} \<times> {x0..<x1}" by auto
    ultimately show ?thesis by simp
  qed
  have "\<exists>s'. for_loop [y0..<y1] (\<lambda>y. for_loop [x0..<x1] (body y)) s = Inr s' \<and> ok s' \<and>
          (\<forall>k. if k \<in> (\<Union>y\<in>set [y0..<y1]. {y} \<times> {x0..<x1}) then R k (view s k) (view s' k)
                else view s' k = view s k)"
  proof (rule for_loop_cells[where ok = ok])
    show "ok s" by (rule assms(1))
    show "distinct [y0..<y1]" by simp
    show "\<And>i j. i \<in> set [y0..<y1] \<Longrightarrow> j \<in> set [y0..<y1] \<Longrightarrow> i \<noteq> j \<Longrightarrow>
            {i} \<times> {x0..<x1} \<inter> {j} \<times> {x0..<x1} = {}"
      by auto
    show "\<And>i s. i \<in> set [y0..<y1] \<Longrightarrow> ok s \<Longrightarrow>
            \<exists>s'. for_loop [x0..<x1] (body i) s = Inr s' \<and> ok s' \<and>
              (\<forall>k. if k \<in> {i} \<times> {x0..<x1} then R k (view s k) (view s' k) else view s' k = view s k)"
      by (rule row)
  qed
  then obtain s' where s': "for_loop [y0..<y1] (\<lambda>y. for_loop [x0..<x1] (body y)) s = Inr s'" "ok s'"
    "\<forall>k. if k \<in> (\<Union>y\<in>set [y0..<y1]. {y} \<times> {x0..<x1}) then R k (view s k) (view s' k)
          else view s' k = view s k"
    by blast
  have "if y0 \<le> y \<and> y < y1 \<and> x0 \<le> x \<and> x < x1 then R (y, x) (view s (y, x)) (view s' (y, x))
        else view s' (y, x) = view s (y, x)" for y x
    using spec[OF s'(3), of "(y, x)"] by (auto split: if_splits)
  with s'(1,2) show ?thesis by blast
qed

text \<open>A loop stops with a fault as soon as one iteration faults.\<close>

lemma for_loop_fault:
  assumes "I s" and "\<And>i s s'. I s \<Longrightarrow> body i s = Inr s' \<Longrightarrow> I s'"
    and "i0 \<in> set is" and "\<And>s. I s \<Longrightarrow> \<exists>e. body i0 s = Inl e"
  shows "\<exists>e. for_loop is body s = Inl e"
  using assms(1,3)
proof (induction "is" arbitrary: s)
  case Nil
  then show ?case by simp
next
  case (Cons i "is")
  show ?case
  proof (cases "body i s")
    case (Inl e)
    then show ?thesis by simp
  next
    case (Inr s')
    then have s': "I s'" using assms(2) Cons.prems(1) by blast
    have "i0 \<in> set is"
    proof (rule ccontr)
      assume "i0 \<notin> set is"
      then have "i0 = i" using Cons.prems(2) by simp
      with assms(4)[OF Cons.prems(1)] Inr show False by simp
    qed
    from Cons.IH[OF s' this] Inr show ?thesis by simp
  qed
qed

lemma for_loop_Inl:
  "for_loop is body s = Inl e \<Longrightarrow> \<exists>i\<in>set is. \<exists>s. body i s = Inl e"
proof (induction "is" arbitrary: s)
  case Nil
  then show ?case by simp
next
  case (Cons i "is")
  then show ?case by (cases "body i s") auto
qed

lemma for_loop_invariant:
  assumes "I s" and "\<And>i s s'. i \<in> set is \<Longrightarrow> I s \<Longrightarrow> body i s = Inr s' \<Longrightarrow> I s'"
    and "for_loop is body s = Inr s'"
  shows "I s'"
  using assms
proof (induction "is" arbitrary: s)
  case Nil
  then show ?case by simp
next
  case (Cons i "is")
  then show ?case by (cases "body i s") auto
qed

section \<open>The diffusion operator and the step of the Simplified Excitable model\<close>

lemma fhn_applyDiffusion_cells:
  assumes g: "is_grid h w grid" and r: "is_grid h w result"
    and hw: "fhn_height m = h" "fhn_width m = w"
  shows "\<exists>r. fhn_applyDiffusion m grid coeff result = Inr r \<and> is_grid h w r \<and>
           (\<forall>y x. r ! y ! x = (if interior h w y x then coeff * laplacian5 grid y x else result ! y ! x))"
proof -
  have "\<exists>s'. for_loop [1..<h - 1] (\<lambda>y. for_loop [1..<w - 1] (fhn_diffusion_cell grid coeff y)) result = Inr s'
          \<and> is_grid h w s' \<and>
          (\<forall>y x. if 1 \<le> y \<and> y < h - 1 \<and> 1 \<le> x \<and> x < w - 1
              then (\<lambda>k _ c'. c' = coeff * laplacian5 grid (fst k) (snd k)) (y, x)
                     (cell_at result (y, x)) (cell_at s' (y, x))
              else cell_at s' (y, x) = cell_at result (y, x))"
  proof (rule for_loop2_cells[where ok = "is_grid h w"])
    show "is_grid h w result" by (rule r)
  next
    fix y x and s :: "real grid"
    assume b: "1 \<le> y" "y < h - 1" "1 \<le> x" "x < w - 1" and s: "is_grid h w s"
    have ing: "in_grid grid (y - 1) x" "in_grid grid (y + 1) x" "in_grid grid y (x - 1)"
      "in_grid grid y (x + 1)" "in_grid grid y x" "in_grid s y x"
      using b by (auto intro!: is_grid_in_grid[OF g] is_grid_in_grid[OF s])
    then have "fhn_diffusion_cell grid coeff y x s = Inr (grid_set s y x (coeff * laplacian5 grid y x))"
      by (simp add: fhn_diffusion_cell_def laplacian5_def)
    moreover have "is_grid h w (grid_set s y x (coeff * laplacian5 grid y x))"
      by (rule is_grid_grid_set[OF s])
    moreover have "\<forall>k. if k = (y, x)
        then (\<lambda>k _ c'. c' = coeff * laplacian5 grid (fst k) (snd k)) k (cell_at s k)
               (cell_at (grid_set s y x (coeff * laplacian5 grid y x)) k)
        else cell_at (grid_set s y x (coeff * laplacian5 grid y x)) k = cell_at s k"
      using ing(6) by (simp add: cell_at_grid_set)
    ultimately show "\<exists>s'. fhn_diffusion_cell grid coeff y x s = Inr s' \<and> is_grid h w s' \<and>
        (\<forall>k. if k = (y, x)
          then (\<lambda>k _ c'. c' = coeff * laplacian5 grid (fst k) (snd k)) k (cell_at s k) (cell_at s' k)
          else cell_at s' k = cell_at s k)"
      by blast
  qed
  then obtain s' where
    "for_loop [1..<h - 1] (\<lambda>y. for_loop [1..<w - 1] (fhn_diffusion_cell grid coeff y)) result = Inr s'"
    "is_grid h w s'"
    "\<forall>y x. cell_at s' (y, x) =
             (if 1 \<le> y \<and> y < h - 1 \<and> 1 \<le> x \<and> x < w - 1
              then coeff * laplacian5 grid y x else cell_at result (y, x))"
    by auto
  then show ?thesis
    by (intro exI[of _ s']) (simp add: fhn_applyDiffusion_def hw interior_def cell_at_def)
qed

lemma fhn_diffusion_zero:
  assumes g: "is_grid h w grid" and hw: "fhn_height m = h" "fhn_width m = w"
  shows "\<exists>r. (if coeff > 0 then fhn_applyDiffusion m grid coeff (new_grid h w 0) else Inr (new_grid h w 0)) = Inr r
           \<and> is_grid h w r \<and>
           (\<forall>y x. y < h \<longrightarrow> x < w \<longrightarrow> r ! y ! x = fhn_diffusion_term m grid coeff y x)"
proof (cases "coeff > 0")
  case True
  from fhn_applyDiffusion_cells[OF g is_grid_new_grid[of h w "0::real"] hw, of coeff]
  obtain r where r: "fhn_applyDiffusion m grid coeff (new_grid h w 0) = Inr r" "is_grid h w r"
    "\<forall>y x. r ! y ! x = (if interior h w y x then coeff * laplacian5 grid y x else new_grid h w 0 ! y ! x)"
    by blast
  show ?thesis
    using True r by (intro exI[of _ r]) (simp add: fhn_diffusion_term_def hw new_grid_nth)
next
  case False
  then show ?thesis
    by (simp add: fhn_diffusion_term_def is_grid_new_grid new_grid_nth)
qed

lemma fhn_step_cell_ok:
  assumes wf: "fhn_wf m" and b: "y < fhn_height m" "x < fhn_width m"
    and s: "fhn_vars_ok (fhn_height m) (fhn_width m) s"
  shows "\<exists>s'. fhn_step_cell m y x s = Inr s' \<and> fhn_vars_ok (fhn_height m) (fhn_width m) s' \<and>
           (\<forall>k. if k = (y, x) then fhn_vars_at s' k = fhn_cell_upd m k (fhn_vars_at s k)
                 else fhn_vars_at s' k = fhn_vars_at s k)"
proof -
  have ing: "in_grid (fhn_u m) y x" "in_grid (fhn_v m) y x" "in_grid (fhn_stimulus m) y x"
    "in_grid (fv_du_dt s) y x" "in_grid (fv_dv_dt s) y x" "in_grid (fv_u_new s) y x" "in_grid (fv_v_new s) y x"
    using wf s b by (auto simp: fhn_wf_def fhn_vars_ok_def intro: is_grid_in_grid)
  show ?thesis
    using ing s
    by (simp add: fhn_step_cell_def Let_def fhn_vars_ok_def is_grid_grid_set fhn_vars_at_def
        cell_at_grid_set fhn_cell_upd_def)
       (simp add: cell_at_def)
qed

lemma fhn_step_loop:
  assumes wf: "fhn_wf m" and s: "fhn_vars_ok (fhn_height m) (fhn_width m) s"
  shows "\<exists>s'. for_loop [0..<fhn_height m] (\<lambda>y. for_loop [0..<fhn_width m] (\<lambda>x. fhn_step_cell m y x)) s = Inr s'
           \<and> fhn_vars_ok (fhn_height m) (fhn_width m) s' \<and>
           (\<forall>y x. y < fhn_height m \<longrightarrow> x < fhn_width m \<longrightarrow>
                fhn_vars_at s' (y, x) = fhn_cell_upd m (y, x) (fhn_vars_at s (y, x)))"
proof -
  have "\<exists>s'. for_loop [0..<fhn_height m] (\<lambda>y. for_loop [0..<fhn_width m] (fhn_step_cell m y)) s = Inr s'
           \<and> fhn_vars_ok (fhn_height m) (fhn_width m) s' \<and>
           (\<forall>y x. if 0 \<le> y \<and> y < fhn_height m \<and> 0 \<le> x \<and> x < fhn_width m
               then (\<lambda>k c c'. c' = fhn_cell_upd m k c) (y, x) (fhn_vars_at s (y, x)) (fhn_vars_at s' (y, x))
               else fhn_vars_at s' (y, x) = fhn_vars_at s (y, x))"
    by (rule for_loop2_cells[where ok = "fhn_vars_ok (fhn_height m) (fhn_width m)"])
       (use s fhn_step_cell_ok[OF wf] in auto)
  then show ?thesis by (auto split: if_splits)
qed

lemma fhn_step_closed:
  assumes wf: "fhn_wf m"
  shows "\<exists>m' du_dt dv_dt.
      (if fhn_du m > 0 then fhn_applyDiffusion m (fhn_u m) (fhn_du m) (new_grid (fhn_height m) (fhn_width m) 0)
       else Inr (new_grid (fhn_height m) (fhn_width m) 0)) = Inr du_dt \<and>
      (if fhn_dv m > 0 then fhn_applyDiffusion m (fhn_v m) (fhn_dv m) (new_grid (fhn_height m) (fhn_width m) 0)
       else Inr (new_grid (fhn_height m) (fhn_width m) 0)) = Inr dv_dt \<and>
      (\<forall>y x. y < fhn_height m \<longrightarrow> x < fhn_width m \<longrightarrow>
         du_dt ! y ! x = fhn_diffusion_term m (fhn_u m) (fhn_du m) y x \<and>
         dv_dt ! y ! x = fhn_diffusion_term m (fhn_v m) (fhn_dv m) y x) \<and>
      fhn_step m = Inr m' \<and> fhn_wf m' \<and>
      m' = m\<lparr>fhn_u := fhn_u m', fhn_v := fhn_v m', fhn_u_new := fhn_u m, fhn_v_new := fhn_v m,
             fhn_time := fhn_time m + fhn_dt m\<rparr> \<and>
      (\<forall>y x. y < fhn_height m \<longrightarrow> x < fhn_width m \<longrightarrow>
         fhn_u m' ! y ! x = fhn_u m ! y ! x + fhn_dt m *
            (du_dt ! y ! x + reactionU (fhn_u m ! y ! x) (fhn_v m ! y ! x) (fhn_stimulus m ! y ! x)) \<and>
         fhn_v m' ! y ! x = fhn_v m ! y ! x + fhn_dt m *
            (dv_dt ! y ! x + reactionV m (fhn_u m ! y ! x) (fhn_v m ! y ! x)))"
proof -
  let ?h = "fhn_height m" and ?w = "fhn_width m"
  let ?zero = "new_grid ?h ?w (0::real)"
  have gu: "is_grid ?h ?w (fhn_u m)" and gv: "is_grid ?h ?w (fhn_v m)"
    and gun: "is_grid ?h ?w (fhn_u_new m)" and gvn: "is_grid ?h ?w (fhn_v_new m)"
    and gs: "is_grid ?h ?w (fhn_stimulus m)"
    using wf by (simp_all add: fhn_wf_def)
  from fhn_diffusion_zero[OF gu refl refl, of "fhn_du m"]
  obtain du_dt where du: "(if fhn_du m > 0 then fhn_applyDiffusion m (fhn_u m) (fhn_du m) ?zero else Inr ?zero) = Inr du_dt"
    "is_grid ?h ?w du_dt"
    "\<forall>y x. y < ?h \<longrightarrow> x < ?w \<longrightarrow> du_dt ! y ! x = fhn_diffusion_term m (fhn_u m) (fhn_du m) y x"
    by blast
  from fhn_diffusion_zero[OF gv refl refl, of "fhn_dv m"]
  obtain dv_dt where dv: "(if fhn_dv m > 0 then fhn_applyDiffusion m (fhn_v m) (fhn_dv m) ?zero else Inr ?zero) = Inr dv_dt"
    "is_grid ?h ?w dv_dt"
    "\<forall>y x. y < ?h \<longrightarrow> x < ?w \<longrightarrow> dv_dt ! y ! x = fhn_diffusion_term m (fhn_v m) (fhn_dv m) y x"
    by blast
  let ?s0 = "\<lparr>fv_du_dt = du_dt, fv_dv_dt = dv_dt, fv_u_new = fhn_u_new m, fv_v_new = fhn_v_new m\<rparr>"
  have ok0: "fhn_vars_ok ?h ?w ?s0"
    using du(2) dv(2) gun gvn by (simp add: fhn_vars_ok_def)
  from fhn_step_loop[OF wf ok0]
  obtain s where s: "for_loop [0..<?h] (\<lambda>y. for_loop [0..<?w] (\<lambda>x. fhn_step_cell m y x)) ?s0 = Inr s"
    "fhn_vars_ok ?h ?w s"
    "\<forall>y x. y < ?h \<longrightarrow> x < ?w \<longrightarrow> fhn_vars_at s (y, x) = fhn_cell_upd m (y, x) (fhn_vars_at ?s0 (y, x))"
    by blast
  let ?m' = "m\<lparr>fhn_u := fv_u_new s, fhn_v := fv_v_new s, fhn_u_new := fhn_u m, fhn_v_new := fhn_v m,
               fhn_time := fhn_time m + fhn_dt m\<rparr>"
  have step: "fhn_step m = Inr ?m'"
    using du(1) dv(1) s(1) by (simp add: fhn_step_def Let_def)
  have wf': "fhn_wf ?m'"
    using s(2) gu gv gs by (simp add: fhn_wf_def fhn_vars_ok_def)
  have cells: "fv_u_new s ! y ! x = fhn_u m ! y ! x + fhn_dt m *
            (du_dt ! y ! x + reactionU (fhn_u m ! y ! x) (fhn_v m ! y ! x) (fhn_stimulus m ! y ! x))"
      "fv_v_new s ! y ! x = fhn_v m ! y ! x + fhn_dt m *
            (dv_dt ! y ! x + reactionV m (fhn_u m ! y ! x) (fhn_v m ! y ! x))"
    if "y < ?h" "x < ?w" for y x
    using s(3)[rule_format, OF that]
    by (simp_all add: fhn_vars_at_def fhn_cell_upd_def Let_def cell_at_def)
  show ?thesis
    apply (rule exI[of _ ?m'], rule exI[of _ du_dt], rule exI[of _ dv_dt])
    using du(1,3) dv(1,3) step wf' cells by simp
qed

lemma fhn_run_wf:
  "fhn_wf m \<Longrightarrow> \<exists>m'. fhn_run n m = Inr m' \<and> fhn_wf m' \<and>
      m' = m\<lparr>fhn_u := fhn_u m', fhn_v := fhn_v m', fhn_u_new := fhn_u_new m', fhn_v_new := fhn_v_new m',
             fhn_time := fhn_time m + real n * fhn_dt m\<rparr>"
proof (induction n arbitrary: m)
  case 0
  then show ?case by simp
next
  case (Suc n)
  from fhn_step_closed[OF Suc.prems]
  obtain m1 where m1: "fhn_step m = Inr m1" "fhn_wf m1"
    "m1 = m\<lparr>fhn_u := fhn_u m1, fhn_v := fhn_v m1, fhn_u_new := fhn_u m, fhn_v_new := fhn_v m,
             fhn_time := fhn_time m + fhn_dt m\<rparr>"
    by blast
  from Suc.IH[OF m1(2)]
  obtain m' where m': "fhn_run n m1 = Inr m'" "fhn_wf m'"
    "m' = m1\<lparr>fhn_u := fhn_u m', fhn_v := fhn_v m', fhn_u_new := fhn_u_new m', fhn_v_new := fhn_v_new m',
             fhn_time := fhn_time m1 + real n * fhn_dt m1\<rparr>"
    by blast
  have "m' = m\<lparr>fhn_u := fhn_u m', fhn_v := fhn_v m', fhn_u_new := fhn_u_new m', fhn_v_new := fhn_v_new m',
             fhn_time := fhn_time m + real (Suc n) * fhn_dt m\<rparr>"
    apply (subst m'(3))
    apply (subst (1 2 3) m1(3))
    by (simp add: algebra_simps)
  with m1(1) m'(1,2) show ?case by simp
qed

section \<open>The masked diffusion operator\<close>

lemma mask_coversD: "mask_covers h w mi \<Longrightarrow> y < h \<Longrightarrow> x < w \<Longrightarrow> in_grid mi y x"
  by (simp add: mask_covers_def list_all_iff)

lemma mask_covers_is_grid: "is_grid h w mi \<Longrightarrow> mask_covers h w mi"
  by (simp add: mask_covers_def list_all_iff is_grid_in_grid)

lemma ce_applyDiffusion_cells:
  assumes g: "is_grid h w grid" and r: "is_grid h w result"
    and hw: "ce_height m = h" "ce_width m = w"
    and mi: "mask_covers h w (ce_mi_region m)"
  shows "\<exists>r. ce_applyDiffusion m grid result = Inr r \<and> is_grid h w r \<and>
           (\<forall>y x. r ! y ! x = (if interior h w y x then ce_diffusion_value m grid y x else result ! y ! x))"
proof -
  let ?R = "\<lambda>k (c::real) c'. c' = ce_diffusion_value m grid (fst k) (snd k)"
  have "\<exists>s'. for_loop [1..<h - 1] (\<lambda>y. for_loop [1..<w - 1] (ce_diffusion_cell m grid y)) result = Inr s'
          \<and> is_grid h w s' \<and>
          (\<forall>y x. if 1 \<le> y \<and> y < h - 1 \<and> 1 \<le> x \<and> x < w - 1
              then ?R (y, x) (cell_at result (y, x)) (cell_at s' (y, x))
              else cell_at s' (y, x) = cell_at result (y, x))"
  proof (rule for_loop2_cells[where ok = "is_grid h w"])
    show "is_grid h w result" by (rule r)
  next
    fix y x and s :: "real grid"
    assume b: "1 \<le> y" "y < h - 1" "1 \<le> x" "x < w - 1" and s: "is_grid h w s"
    have ing: "in_grid grid (y - 1) x" "in_grid grid (y + 1) x" "in_grid grid y (x - 1)"
      "in_grid grid y (x + 1)" "in_grid grid y x" "in_grid s y x"
      using b by (auto intro!: is_grid_in_grid[OF g] is_grid_in_grid[OF s])
    have im: "in_grid (ce_mi_region m) y x"
      using b by (auto intro!: mask_coversD[OF mi])
    have "ce_diffusion_cell m grid y x s = Inr (grid_set s y x (ce_diffusion_value m grid y x))"
      using ing im by (simp add: ce_diffusion_cell_def laplacian5_def ce_diffusion_value_def)
    moreover have "is_grid h w (grid_set s y x (ce_diffusion_value m grid y x))"
      by (rule is_grid_grid_set[OF s])
    moreover have "\<forall>k. if k = (y, x)
        then ?R k (cell_at s k) (cell_at (grid_set s y x (ce_diffusion_value m grid y x)) k)
        else cell_at (grid_set s y x (ce_diffusion_value m grid y x)) k = cell_at s k"
      using ing(6) by (simp add: cell_at_grid_set)
    ultimately show "\<exists>s'. ce_diffusion_cell m grid y x s = Inr s' \<and> is_grid h w s' \<and>
        (\<forall>k. if k = (y, x) then ?R k (cell_at s k) (cell_at s' k) else cell_at s' k = cell_at s k)"
      by blast
  qed
  then obtain s' where
    "for_loop [1..<h - 1] (\<lambda>y. for_loop [1..<w - 1] (ce_diffusion_cell m grid y)) result = Inr s'"
    "is_grid h w s'"
    "\<forall>y x. cell_at s' (y, x) =
             (if 1 \<le> y \<and> y < h - 1 \<and> 1 \<le> x \<and> x < w - 1
              then ce_diffusion_value m grid y x else cell_at result (y, x))"
    by auto
  then show ?thesis
    by (intro exI[of _ s']) (simp add: ce_applyDiffusion_def hw interior_def cell_at_def)
qed

lemma interior_iff: "interior h w y x \<longleftrightarrow> 1 \<le> y \<and> y + 2 \<le> h \<and> 1 \<le> x \<and> x + 2 \<le> w"
  by (auto simp: interior_def)

lemma interior_small: "w < 3 \<or> h < 3 \<Longrightarrow> \<not> interior h w y x"
  by (auto simp: interior_def)

section \<open>The step of the detailed ionic models\<close>

lemma clamp_range: "0.0001 \<le> max 0.0001 (min 0.01 (c::real)) \<and> max 0.0001 (min 0.01 c) \<le> 0.01"
  by simp

lemma lr_wfD:
  assumes "lr_wf m" and "y < ce_height m" and "x < ce_width m"
  shows "lr_cell_in_range m y x" and "in_grid (ce_mi_region m) y x"
  using assms by (auto simp: lr_wf_def lr_cell_in_range_def intro: is_grid_in_grid mask_coversD)

lemma lr_step_cell_scar:
  assumes "in_grid (ce_mi_region (snd s)) y x" "ce_mi_region (snd s) ! y ! x"
    "in_grid (fst s) y x" "in_grid (lr_V (snd s)) y x"
  shows "lr_step_cell dV_dt y x s = Inr (grid_set (fst s) y x (lr_V (snd s) ! y ! x), snd s)"
  using assms by (simp add: lr_step_cell_def Let_def)

lemma lr_step_cell_live:
  assumes "in_grid (ce_mi_region (snd s)) y x" "\<not> ce_mi_region (snd s) ! y ! x"
    "in_grid (fst s) y x" "in_grid dV_dt y x" "lr_cell_in_range (snd s) y x"
  shows "\<exists>v mv hv xv cv. lr_step_cell dV_dt y x s =
           Inr (grid_set (fst s) y x v,
                (snd s)\<lparr>lr_m := grid_set (lr_m (snd s)) y x mv,
                        lr_h := grid_set (lr_h (snd s)) y x hv,
                        lr_xr := grid_set (lr_xr (snd s)) y x xv,
                        lr_Cai := grid_set (lr_Cai (snd s)) y x (max 0.0001 (min 0.01 cv))\<rparr>)"
  unfolding lr_step_cell_def Let_def
  by (simp only: assms if_True if_False not_True_eq_False not_False_eq_True simp_thms) blast


lemma lr_wf_update:
  assumes "lr_wf m" and "is_grid (ce_height m) (ce_width m) gm" and "is_grid (ce_height m) (ce_width m) gh"
    and "is_grid (ce_height m) (ce_width m) gx" and "is_grid (ce_height m) (ce_width m) gc"
  shows "lr_wf (m\<lparr>lr_m := gm, lr_h := gh, lr_xr := gx, lr_Cai := gc\<rparr>)"
  using assms by (simp add: lr_wf_def)

lemma lr_step_cell_ok:
  assumes dv: "is_grid (ce_height m0) (ce_width m0) dV_dt"
    and b: "y < ce_height m0" "x < ce_width m0"
    and ok: "lr_loop_ok m0 s"
  shows "\<exists>s'. lr_step_cell dV_dt y x s = Inr s' \<and> lr_loop_ok m0 s' \<and>
           (\<forall>k. if k = (y, x)
                 then scar_rel (ce_mi_region m0) (lr_V m0) k (lr_loop_at s k) (lr_loop_at s' k)
                 else lr_loop_at s' k = lr_loop_at s k)"
proof -
  let ?h = "ce_height m0" and ?w = "ce_width m0"
  have eq: "snd s = m0\<lparr>lr_m := lr_m (snd s), lr_h := lr_h (snd s), lr_xr := lr_xr (snd s),
               lr_Cai := lr_Cai (snd s)\<rparr>"
    and wf: "lr_wf (snd s)" and vn: "is_grid ?h ?w (fst s)"
    using ok by (simp_all add: lr_loop_ok_def)
  have st: "ce_height (snd s) = ?h" "ce_width (snd s) = ?w" "ce_mi_region (snd s) = ce_mi_region m0"
    "lr_V (snd s) = lr_V m0"
    by (subst eq, simp)+
  have rng: "lr_cell_in_range (snd s) y x" "in_grid (ce_mi_region (snd s)) y x"
    using lr_wfD[OF wf] b st by simp_all
  have ing: "in_grid (fst s) y x" "in_grid dV_dt y x" "in_grid (lr_V (snd s)) y x"
    "in_grid (lr_Cai (snd s)) y x"
    using vn dv b rng(1) by (auto intro: is_grid_in_grid simp: lr_cell_in_range_def)
  have grids: "is_grid ?h ?w (lr_m (snd s))" "is_grid ?h ?w (lr_h (snd s))"
    "is_grid ?h ?w (lr_xr (snd s))" "is_grid ?h ?w (lr_Cai (snd s))"
    using wf st by (simp_all add: lr_wf_def)
  show ?thesis
  proof (cases "ce_mi_region (snd s) ! y ! x")
    case True
    let ?s' = "(grid_set (fst s) y x (lr_V (snd s) ! y ! x), snd s)"
    have "lr_step_cell dV_dt y x s = Inr ?s'"
      by (rule lr_step_cell_scar[OF rng(2) True ing(1,3)])
    moreover have "lr_loop_ok m0 ?s'"
      using ok by (simp add: lr_loop_ok_def is_grid_grid_set)
    moreover have "\<forall>k. if k = (y, x)
                 then scar_rel (ce_mi_region m0) (lr_V m0) k (lr_loop_at s k) (lr_loop_at ?s' k)
                 else lr_loop_at ?s' k = lr_loop_at s k"
      using True ing(1) st
      by (simp add: scar_rel_def lr_loop_at_def cell_at_grid_set) (simp add: cell_at_def)
    ultimately show ?thesis by blast
  next
    case False
    from lr_step_cell_live[OF rng(2) False ing(1,2) rng(1)]
    obtain v mv hv xv cv where c: "lr_step_cell dV_dt y x s =
           Inr (grid_set (fst s) y x v,
                (snd s)\<lparr>lr_m := grid_set (lr_m (snd s)) y x mv,
                        lr_h := grid_set (lr_h (snd s)) y x hv,
                        lr_xr := grid_set (lr_xr (snd s)) y x xv,
                        lr_Cai := grid_set (lr_Cai (snd s)) y x (max 0.0001 (min 0.01 cv))\<rparr>)"
      by blast
    let ?m' = "(snd s)\<lparr>lr_m := grid_set (lr_m (snd s)) y x mv,
                        lr_h := grid_set (lr_h (snd s)) y x hv,
                        lr_xr := grid_set (lr_xr (snd s)) y x xv,
                        lr_Cai := grid_set (lr_Cai (snd s)) y x (max 0.0001 (min 0.01 cv))\<rparr>"
    let ?s' = "(grid_set (fst s) y x v, ?m')"
    have wf': "lr_wf ?m'"
      by (rule lr_wf_update[OF wf]) (simp_all add: st grids is_grid_grid_set)
    have eq': "?m' = m0\<lparr>lr_m := lr_m ?m', lr_h := lr_h ?m', lr_xr := lr_xr ?m', lr_Cai := lr_Cai ?m'\<rparr>"
      by (subst (1) eq) simp
    have "lr_loop_ok m0 ?s'"
      unfolding lr_loop_ok_def fst_conv snd_conv
      using wf' eq' vn by (intro conjI is_grid_grid_set)
    moreover have "\<forall>k. if k = (y, x)
                 then scar_rel (ce_mi_region m0) (lr_V m0) k (lr_loop_at s k) (lr_loop_at ?s' k)
                 else lr_loop_at ?s' k = lr_loop_at s k"
      using False ing(1,4) st clamp_range[of cv]
      by (simp add: scar_rel_def lr_loop_at_def cell_at_grid_set) (simp add: cell_at_def)
    ultimately show ?thesis using c by blast
  qed
qed

lemma lr_step_props:
  assumes wf: "lr_wf m"
  shows "\<exists>m'. lr_step m = Inr m' \<and> lr_wf m' \<and>
           m' = m\<lparr>lr_V := lr_V m', lr_m := lr_m m', lr_h := lr_h m', lr_xr := lr_xr m',
                  lr_Cai := lr_Cai m', ce_time := ce_time m + ce_dt m\<rparr> \<and>
           (\<forall>y x. y < ce_height m \<longrightarrow> x < ce_width m \<longrightarrow>
              (if ce_mi_region m ! y ! x
               then lr_V m' ! y ! x = lr_V m ! y ! x \<and> lr_Cai m' ! y ! x = lr_Cai m ! y ! x
               else 0.0001 \<le> lr_Cai m' ! y ! x \<and> lr_Cai m' ! y ! x \<le> 0.01))"
proof -
  let ?h = "ce_height m" and ?w = "ce_width m"
  let ?zero = "new_grid ?h ?w (0::real)"
  have gV: "is_grid ?h ?w (lr_V m)" and mc: "mask_covers ?h ?w (ce_mi_region m)"
    using wf by (simp_all add: lr_wf_def)
  from ce_applyDiffusion_cells[OF gV is_grid_new_grid[of ?h ?w "0::real"] refl refl mc]
  obtain dV where dV: "ce_applyDiffusion m (lr_V m) ?zero = Inr dV" "is_grid ?h ?w dV"
    by blast
  have ok0: "lr_loop_ok m (?zero, m)"
    using wf by (simp add: lr_loop_ok_def is_grid_new_grid)
  have "\<exists>s'. for_loop [0..<?h] (\<lambda>y. for_loop [0..<?w] (lr_step_cell dV y)) (?zero, m) = Inr s'
           \<and> lr_loop_ok m s' \<and>
           (\<forall>y x. if 0 \<le> y \<and> y < ?h \<and> 0 \<le> x \<and> x < ?w
               then scar_rel (ce_mi_region m) (lr_V m) (y, x) (lr_loop_at (?zero, m) (y, x)) (lr_loop_at s' (y, x))
               else lr_loop_at s' (y, x) = lr_loop_at (?zero, m) (y, x))"
    by (rule for_loop2_cells[where ok = "lr_loop_ok m"])
       (use ok0 lr_step_cell_ok[OF dV(2)] in auto)
  then obtain s' where s': "for_loop [0..<?h] (\<lambda>y. for_loop [0..<?w] (lr_step_cell dV y)) (?zero, m) = Inr s'"
    "lr_loop_ok m s'"
    "\<forall>y x. y < ?h \<longrightarrow> x < ?w \<longrightarrow>
        scar_rel (ce_mi_region m) (lr_V m) (y, x) (lr_loop_at (?zero, m) (y, x)) (lr_loop_at s' (y, x))"
    by (auto split: if_splits)
  let ?m' = "(snd s')\<lparr>lr_V := fst s', ce_time := ce_time (snd s') + ce_dt (snd s')\<rparr>"
  have eq: "snd s' = m\<lparr>lr_m := lr_m (snd s'), lr_h := lr_h (snd s'), lr_xr := lr_xr (snd s'),
               lr_Cai := lr_Cai (snd s')\<rparr>"
    and wfs: "lr_wf (snd s')" and vn: "is_grid ?h ?w (fst s')"
    using s'(2) by (simp_all add: lr_loop_ok_def)
  have st: "ce_height (snd s') = ?h" "ce_width (snd s') = ?w" "ce_time (snd s') = ce_time m"
    "ce_dt (snd s') = ce_dt m"
    by (subst eq, simp)+
  have step: "lr_step m = Inr ?m'"
    using dV(1) s'(1) by (simp add: lr_step_def Let_def)
  have wf': "lr_wf ?m'"
    using wfs vn st by (simp add: lr_wf_def)
  have eq': "?m' = m\<lparr>lr_V := lr_V ?m', lr_m := lr_m ?m', lr_h := lr_h ?m', lr_xr := lr_xr ?m',
                  lr_Cai := lr_Cai ?m', ce_time := ce_time m + ce_dt m\<rparr>"
    by (subst (1) eq) (simp add: st)
  have cells: "if ce_mi_region m ! y ! x
               then lr_V ?m' ! y ! x = lr_V m ! y ! x \<and> lr_Cai ?m' ! y ! x = lr_Cai m ! y ! x
               else 0.0001 \<le> lr_Cai ?m' ! y ! x \<and> lr_Cai ?m' ! y ! x \<le> 0.01"
    if "y < ?h" "x < ?w" for y x
    using s'(3)[rule_format, OF that]
    by (simp add: scar_rel_def lr_loop_at_def cell_at_def split: if_splits)
  show ?thesis
    using step wf' eq' cells by (intro exI[of _ ?m']) blast
qed


lemma tt_wfD:
  assumes "tt_wf m" and "y < ce_height m" and "x < ce_width m"
  shows "tt_cell_in_range m y x" and "in_grid (ce_mi_region m) y x"
  using assms by (auto simp: tt_wf_def tt_cell_in_range_def intro: is_grid_in_grid mask_coversD)

lemma tt_step_cell_scar:
  assumes "in_grid (ce_mi_region (snd s)) y x" "ce_mi_region (snd s) ! y ! x"
    "in_grid (fst s) y x" "in_grid (tt_V (snd s)) y x"
  shows "tt_step_cell dV_dt y x s = Inr (grid_set (fst s) y x (tt_V (snd s) ! y ! x), snd s)"
  using assms by (simp add: tt_step_cell_def Let_def)

lemma tt_step_cell_live:
  assumes "in_grid (ce_mi_region (snd s)) y x" "\<not> ce_mi_region (snd s) ! y ! x"
    "in_grid (fst s) y x" "in_grid dV_dt y x" "tt_cell_in_range (snd s) y x"
  shows "\<exists>v mv xv cv. tt_step_cell dV_dt y x s =
           Inr (grid_set (fst s) y x v,
                (snd s)\<lparr>tt_m := grid_set (tt_m (snd s)) y x mv,
                        tt_u := grid_set (tt_u (snd s)) y x xv,
                        tt_Cai := grid_set (tt_Cai (snd s)) y x (max 0.0001 (min 0.01 cv))\<rparr>)"
  unfolding tt_step_cell_def Let_def
  by (simp only: assms if_True if_False not_True_eq_False not_False_eq_True simp_thms) blast


lemma tt_wf_update:
  assumes "tt_wf m" and "is_grid (ce_height m) (ce_width m) gm"
    and "is_grid (ce_height m) (ce_width m) gx" and "is_grid (ce_height m) (ce_width m) gc"
  shows "tt_wf (m\<lparr>tt_m := gm, tt_u := gx, tt_Cai := gc\<rparr>)"
  using assms by (simp add: tt_wf_def)

lemma tt_step_cell_ok:
  assumes dv: "is_grid (ce_height m0) (ce_width m0) dV_dt"
    and b: "y < ce_height m0" "x < ce_width m0"
    and ok: "tt_loop_ok m0 s"
  shows "\<exists>s'. tt_step_cell dV_dt y x s = Inr s' \<and> tt_loop_ok m0 s' \<and>
           (\<forall>k. if k = (y, x)
                 then scar_rel (ce_mi_region m0) (tt_V m0) k (tt_loop_at s k) (tt_loop_at s' k)
                 else tt_loop_at s' k = tt_loop_at s k)"
proof -
  let ?h = "ce_height m0" and ?w = "ce_width m0"
  have eq: "snd s = m0\<lparr>tt_m := tt_m (snd s), tt_u := tt_u (snd s), tt_Cai := tt_Cai (snd s)\<rparr>"
    and wf: "tt_wf (snd s)" and vn: "is_grid ?h ?w (fst s)"
    using ok by (simp_all add: tt_loop_ok_def)
  have st: "ce_height (snd s) = ?h" "ce_width (snd s) = ?w" "ce_mi_region (snd s) = ce_mi_region m0"
    "tt_V (snd s) = tt_V m0"
    by (subst eq, simp)+
  have rng: "tt_cell_in_range (snd s) y x" "in_grid (ce_mi_region (snd s)) y x"
    using tt_wfD[OF wf] b st by simp_all
  have ing: "in_grid (fst s) y x" "in_grid dV_dt y x" "in_grid (tt_V (snd s)) y x"
    "in_grid (tt_Cai (snd s)) y x"
    using vn dv b rng(1) by (auto intro: is_grid_in_grid simp: tt_cell_in_range_def)
  have grids: "is_grid ?h ?w (tt_m (snd s))" "is_grid ?h ?w (tt_u (snd s))"
    "is_grid ?h ?w (tt_Cai (snd s))"
    using wf st by (simp_all add: tt_wf_def)
  show ?thesis
  proof (cases "ce_mi_region (snd s) ! y ! x")
    case True
    let ?s' = "(grid_set (fst s) y x (tt_V (snd s) ! y ! x), snd s)"
    have "tt_step_cell dV_dt y x s = Inr ?s'"
      by (rule tt_step_cell_scar[OF rng(2) True ing(1,3)])
    moreover have "tt_loop_ok m0 ?s'"
      using ok by (simp add: tt_loop_ok_def is_grid_grid_set)
    moreover have "\<forall>k. if k = (y, x)
                 then scar_rel (ce_mi_region m0) (tt_V m0) k (tt_loop_at s k) (tt_loop_at ?s' k)
                 else tt_loop_at ?s' k = tt_loop_at s k"
      using True ing(1) st
      by (simp add: scar_rel_def tt_loop_at_def cell_at_grid_set) (simp add: cell_at_def)
    ultimately show ?thesis by blast
  next
    case False
    from tt_step_cell_live[OF rng(2) False ing(1,2) rng(1)]
    obtain v mv xv cv where c: "tt_step_cell dV_dt y x s =
           Inr (grid_set (fst s) y x v,
                (snd s)\<lparr>tt_m := grid_set (tt_m (snd s)) y x mv,
                        tt_u := grid_set (tt_u (snd s)) y x xv,
                        tt_Cai := grid_set (tt_Cai (snd s)) y x (max 0.0001 (min 0.01 cv))\<rparr>)"
      by blast
    let ?m' = "(snd s)\<lparr>tt_m := grid_set (tt_m (snd s)) y x mv,
                        tt_u := grid_set (tt_u (snd s)) y x xv,
                        tt_Cai := grid_set (tt_Cai (snd s)) y x (max 0.0001 (min 0.01 cv))\<rparr>"
    let ?s' = "(grid_set (fst s) y x v, ?m')"
    have wf': "tt_wf ?m'"
      by (rule tt_wf_update[OF wf]) (simp_all add: st grids is_grid_grid_set)
    have eq': "?m' = m0\<lparr>tt_m := tt_m ?m', tt_u := tt_u ?m', tt_Cai := tt_Cai ?m'\<rparr>"
      by (subst (1) eq) simp
    have "tt_loop_ok m0 ?s'"
      unfolding tt_loop_ok_def fst_conv snd_conv
      using wf' eq' vn by (intro conjI is_grid_grid_set)
    moreover have "\<forall>k. if k = (y, x)
                 then scar_rel (ce_mi_region m0) (tt_V m0) k (tt_loop_at s k) (tt_loop_at ?s' k)
                 else tt_loop_at ?s' k = tt_loop_at s k"
      using False ing(1,4) st clamp_range[of cv]
      by (simp add: scar_rel_def tt_loop_at_def cell_at_grid_set) (simp add: cell_at_def)
    ultimately show ?thesis using c by blast
  qed
qed

lemma tt_step_props:
  assumes wf: "tt_wf m"
  shows "\<exists>m'. tt_step m = Inr m' \<and> tt_wf m' \<and>
           m' = m\<lparr>tt_V := tt_V m', tt_m := tt_m m', tt_u := tt_u m',
                  tt_Cai := tt_Cai m', ce_time := ce_time m + ce_dt m\<rparr> \<and>
           (\<forall>y x. y < ce_height m \<longrightarrow> x < ce_width m \<longrightarrow>
              (if ce_mi_region m ! y ! x
               then tt_V m' ! y ! x = tt_V m ! y ! x \<and> tt_Cai m' ! y ! x = tt_Cai m ! y ! x
               else 0.0001 \<le> tt_Cai m' ! y ! x \<and> tt_Cai m' ! y ! x \<le> 0.01))"
proof -
  let ?h = "ce_height m" and ?w = "ce_width m"
  let ?zero = "new_grid ?h ?w (0::real)"
  have gV: "is_grid ?h ?w (tt_V m)" and mc: "mask_covers ?h ?w (ce_mi_region m)"
    using wf by (simp_all add: tt_wf_def)
  from ce_applyDiffusion_cells[OF gV is_grid_new_grid[of ?h ?w "0::real"] refl refl mc]
  obtain dV where dV: "ce_applyDiffusion m (tt_V m) ?zero = Inr dV" "is_grid ?h ?w dV"
    by blast
  have ok0: "tt_loop_ok m (?zero, m)"
    using wf by (simp add: tt_loop_ok_def is_grid_new_grid)
  have "\<exists>s'. for_loop [0..<?h] (\<lambda>y. for_loop [0..<?w] (tt_step_cell dV y)) (?zero, m) = Inr s'
           \<and> tt_loop_ok m s' \<and>
           (\<forall>y x. if 0 \<le> y \<and> y < ?h \<and> 0 \<le> x \<and> x < ?w
               then scar_rel (ce_mi_region m) (tt_V m) (y, x) (tt_loop_at (?zero, m) (y, x)) (tt_loop_at s' (y, x))
               else tt_loop_at s' (y, x) = tt_loop_at (?zero, m) (y, x))"
    by (rule for_loop2_cells[where ok = "tt_loop_ok m"])
       (use ok0 tt_step_cell_ok[OF dV(2)] in auto)
  then obtain s' where s': "for_loop [0..<?h] (\<lambda>y. for_loop [0..<?w] (tt_step_cell dV y)) (?zero, m) = Inr s'"
    "tt_loop_ok m s'"
    "\<forall>y x. y < ?h \<longrightarrow> x < ?w \<longrightarrow>
        scar_rel (ce_mi_region m) (tt_V m) (y, x) (tt_loop_at (?zero, m) (y, x)) (tt_loop_at s' (y, x))"
    by (auto split: if_splits)
  let ?m' = "(snd s')\<lparr>tt_V := fst s', ce_time := ce_time (snd s') + ce_dt (snd s')\<rparr>"
  have eq: "snd s' = m\<lparr>tt_m := tt_m (snd s'), tt_u := tt_u (snd s'), tt_Cai := tt_Cai (snd s')\<rparr>"
    and wfs: "tt_wf (snd s')" and vn: "is_grid ?h ?w (fst s')"
    using s'(2) by (simp_all add: tt_loop_ok_def)
  have st: "ce_height (snd s') = ?h" "ce_width (snd s') = ?w" "ce_time (snd s') = ce_time m"
    "ce_dt (snd s') = ce_dt m"
    by (subst eq, simp)+
  have step: "tt_step m = Inr ?m'"
    using dV(1) s'(1) by (simp add: tt_step_def Let_def)
  have wf': "tt_wf ?m'"
    using wfs vn st by (simp add: tt_wf_def)
  have eq': "?m' = m\<lparr>tt_V := tt_V ?m', tt_m := tt_m ?m', tt_u := tt_u ?m',
                  tt_Cai := tt_Cai ?m', ce_time := ce_time m + ce_dt m\<rparr>"
    by (subst (1) eq) (simp add: st)
  have cells: "if ce_mi_region m ! y ! x
               then tt_V ?m' ! y ! x = tt_V m ! y ! x \<and> tt_Cai ?m' ! y ! x = tt_Cai m ! y ! x
               else 0.0001 \<le> tt_Cai ?m' ! y ! x \<and> tt_Cai ?m' ! y ! x \<le> 0.01"
    if "y < ?h" "x < ?w" for y x
    using s'(3)[rule_format, OF that]
    by (simp add: scar_rel_def tt_loop_at_def cell_at_def split: if_splits)
  show ?thesis
    using step wf' eq' cells by (intro exI[of _ ?m']) blast
qed

lemma cai_in_range_iff:
  "is_grid h w g \<Longrightarrow> cai_in_range g \<longleftrightarrow> (\<forall>y x. y < h \<longrightarrow> x < w \<longrightarrow> 0.0001 \<le> g ! y ! x \<and> g ! y ! x \<le> 0.01)"
  by (auto simp: cai_in_range_def is_grid_def list_all_length)

lemma lr_wf_grids:
  assumes "lr_wf m"
  shows "is_grid (ce_height m) (ce_width m) (lr_V m)" "is_grid (ce_height m) (ce_width m) (lr_Cai m)"
    "mask_covers (ce_height m) (ce_width m) (ce_mi_region m)"
  using assms by (simp_all add: lr_wf_def)

lemma lr_step_cai:
  assumes wf: "lr_wf m" and c: "cai_in_range (lr_Cai m)"
  shows "\<exists>m'. lr_step m = Inr m' \<and> lr_wf m' \<and> cai_in_range (lr_Cai m') \<and>
           ce_height m' = ce_height m \<and> ce_width m' = ce_width m \<and>
           ce_mi_region m' = ce_mi_region m \<and>
           (\<forall>y x. y < ce_height m \<longrightarrow> x < ce_width m \<longrightarrow> ce_mi_region m ! y ! x \<longrightarrow>
                lr_V m' ! y ! x = lr_V m ! y ! x)"
proof -
  from lr_step_props[OF wf] obtain m' where m': "lr_step m = Inr m'" "lr_wf m'"
    "m' = m\<lparr>lr_V := lr_V m', lr_m := lr_m m', lr_h := lr_h m', lr_xr := lr_xr m',
           lr_Cai := lr_Cai m', ce_time := ce_time m + ce_dt m\<rparr>"
    "\<forall>y x. y < ce_height m \<longrightarrow> x < ce_width m \<longrightarrow>
              (if ce_mi_region m ! y ! x
               then lr_V m' ! y ! x = lr_V m ! y ! x \<and> lr_Cai m' ! y ! x = lr_Cai m ! y ! x
               else 0.0001 \<le> lr_Cai m' ! y ! x \<and> lr_Cai m' ! y ! x \<le> 0.01)"
    by blast
  have st: "ce_height m' = ce_height m" "ce_width m' = ce_width m" "ce_mi_region m' = ce_mi_region m"
    by (subst m'(3), simp)+
  have c0: "\<forall>y x. y < ce_height m \<longrightarrow> x < ce_width m \<longrightarrow>
              0.0001 \<le> lr_Cai m ! y ! x \<and> lr_Cai m ! y ! x \<le> 0.01"
    using c cai_in_range_iff[OF lr_wf_grids(2)[OF wf]] by blast
  have "0.0001 \<le> lr_Cai m' ! y ! x \<and> lr_Cai m' ! y ! x \<le> 0.01"
    if "y < ce_height m" "x < ce_width m" for y x
  proof (cases "ce_mi_region m ! y ! x")
    case True
    with m'(4)[rule_format, OF that] have "lr_Cai m' ! y ! x = lr_Cai m ! y ! x" by simp
    with c0[rule_format, OF that] show ?thesis by simp
  next
    case False
    with m'(4)[rule_format, OF that] show ?thesis by simp
  qed
  then have "cai_in_range (lr_Cai m')"
    using cai_in_range_iff[OF lr_wf_grids(2)[OF m'(2)]] st by simp
  with m'(1,2,4) st show ?thesis by auto
qed

lemma lr_run_props:
  assumes wf: "lr_wf m"
  shows "\<exists>m'. lr_run n m = Inr m' \<and> lr_wf m' \<and>
           ce_height m' = ce_height m \<and> ce_width m' = ce_width m \<and>
           ce_mi_region m' = ce_mi_region m \<and>
           (cai_in_range (lr_Cai m) \<longrightarrow> cai_in_range (lr_Cai m')) \<and>
           (\<forall>y x. y < ce_height m \<longrightarrow> x < ce_width m \<longrightarrow> ce_mi_region m ! y ! x \<longrightarrow>
                lr_V m' ! y ! x = lr_V m ! y ! x)"
  using wf
proof (induction n arbitrary: m)
  case 0
  then show ?case by simp
next
  case (Suc n)
  from lr_step_props[OF Suc.prems] obtain m1 where m1: "lr_step m = Inr m1" "lr_wf m1"
    "m1 = m\<lparr>lr_V := lr_V m1, lr_m := lr_m m1, lr_h := lr_h m1, lr_xr := lr_xr m1,
           lr_Cai := lr_Cai m1, ce_time := ce_time m + ce_dt m\<rparr>"
    "\<forall>y x. y < ce_height m \<longrightarrow> x < ce_width m \<longrightarrow>
              (if ce_mi_region m ! y ! x
               then lr_V m1 ! y ! x = lr_V m ! y ! x \<and> lr_Cai m1 ! y ! x = lr_Cai m ! y ! x
               else 0.0001 \<le> lr_Cai m1 ! y ! x \<and> lr_Cai m1 ! y ! x \<le> 0.01)"
    by blast
  have st: "ce_height m1 = ce_height m" "ce_width m1 = ce_width m" "ce_mi_region m1 = ce_mi_region m"
    by (subst m1(3), simp)+
  have c1: "cai_in_range (lr_Cai m1)" if "cai_in_range (lr_Cai m)"
    using lr_step_cai[OF Suc.prems that] m1(1) by auto
  from Suc.IH[OF m1(2)] obtain m' where m': "lr_run n m1 = Inr m'" "lr_wf m'"
    "ce_height m' = ce_height m1" "ce_width m' = ce_width m1" "ce_mi_region m' = ce_mi_region m1"
    "cai_in_range (lr_Cai m1) \<longrightarrow> cai_in_range (lr_Cai m')"
    "\<forall>y x. y < ce_height m1 \<longrightarrow> x < ce_width m1 \<longrightarrow> ce_mi_region m1 ! y ! x \<longrightarrow>
                lr_V m' ! y ! x = lr_V m1 ! y ! x"
    by blast
  have "lr_V m' ! y ! x = lr_V m ! y ! x"
    if "y < ce_height m" "x < ce_width m" "ce_mi_region m ! y ! x" for y x
    using m'(7)[rule_format, of y x] m1(4)[rule_format, of y x] that st by simp
  then show ?case
    using m1(1) m'(1,2,3,4,5,6) st c1 by simp
qed


lemma lr_wf_setMIRegion:
  assumes "lr_wf m" and "is_grid (ce_height m) (ce_width m) mi"
  shows "setMIRegion m mi = m\<lparr>ce_mi_region := mi\<rparr>" and "lr_wf (setMIRegion m mi)"
proof -
  have "length mi = ce_height m" and "ce_height m > 0 \<longrightarrow> length (mi ! 0) = ce_width m"
    using assms(2) by (auto simp: is_grid_def list_all_length)
  then show eq: "setMIRegion m mi = m\<lparr>ce_mi_region := mi\<rparr>"
    by (auto simp: setMIRegion_def)
  show "lr_wf (setMIRegion m mi)"
    unfolding eq using assms by (simp add: lr_wf_def mask_covers_is_grid)
qed

lemma lr_wf_LuoRudyModel: "lr_wf (LuoRudyModel w h dt)"
  by (simp add: LuoRudyModel_def lr_setCellType_def lr_wf_def is_grid_new_grid mask_covers_is_grid)

lemma lr_diffusion_scar_zero:
  assumes "lr_wf m"
  shows "\<exists>dV. ce_applyDiffusion m (lr_V m) (new_grid (ce_height m) (ce_width m) 0) = Inr dV \<and>
           (\<forall>y x. y < ce_height m \<longrightarrow> x < ce_width m \<longrightarrow> ce_mi_region m ! y ! x \<longrightarrow> dV ! y ! x = 0)"
proof -
  from ce_applyDiffusion_cells[OF lr_wf_grids(1)[OF assms]
      is_grid_new_grid[of "ce_height m" "ce_width m" "0::real"] refl refl lr_wf_grids(3)[OF assms]]
  obtain dV where dV: "ce_applyDiffusion m (lr_V m) (new_grid (ce_height m) (ce_width m) 0) = Inr dV"
    "\<forall>y x. dV ! y ! x = (if interior (ce_height m) (ce_width m) y x then ce_diffusion_value m (lr_V m) y x
                         else new_grid (ce_height m) (ce_width m) 0 ! y ! x)"
    by blast
  have "dV ! y ! x = 0" if "y < ce_height m" "x < ce_width m" "ce_mi_region m ! y ! x" for y x
    using dV(2)[rule_format, of y x] that by (simp add: ce_diffusion_value_def new_grid_nth)
  with dV(1) show ?thesis by blast
qed
lemma tt_wf_grids:
  assumes "tt_wf m"
  shows "is_grid (ce_height m) (ce_width m) (tt_V m)" "is_grid (ce_height m) (ce_width m) (tt_Cai m)"
    "mask_covers (ce_height m) (ce_width m) (ce_mi_region m)"
  using assms by (simp_all add: tt_wf_def)

lemma tt_step_cai:
  assumes wf: "tt_wf m" and c: "cai_in_range (tt_Cai m)"
  shows "\<exists>m'. tt_step m = Inr m' \<and> tt_wf m' \<and> cai_in_range (tt_Cai m') \<and>
           ce_height m' = ce_height m \<and> ce_width m' = ce_width m \<and>
           ce_mi_region m' = ce_mi_region m \<and>
           (\<forall>y x. y < ce_height m \<longrightarrow> x < ce_width m \<longrightarrow> ce_mi_region m ! y ! x \<longrightarrow>
                tt_V m' ! y ! x = tt_V m ! y ! x)"
proof -
  from tt_step_props[OF wf] obtain m' where m': "tt_step m = Inr m'" "tt_wf m'"
    "m' = m\<lparr>tt_V := tt_V m', tt_m := tt_m m', tt_u := tt_u m',
           tt_Cai := tt_Cai m', ce_time := ce_time m + ce_dt m\<rparr>"
    "\<forall>y x. y < ce_height m \<longrightarrow> x < ce_width m \<longrightarrow>
              (if ce_mi_region m ! y ! x
               then tt_V m' ! y ! x = tt_V m ! y ! x \<and> tt_Cai m' ! y ! x = tt_Cai m ! y ! x
               else 0.0001 \<le> tt_Cai m' ! y ! x \<and> tt_Cai m' ! y ! x \<le> 0.01)"
    by blast
  have st: "ce_height m' = ce_height m" "ce_width m' = ce_width m" "ce_mi_region m' = ce_mi_region m"
    by (subst m'(3), simp)+
  have c0: "\<forall>y x. y < ce_height m \<longrightarrow> x < ce_width m \<longrightarrow>
              0.0001 \<le> tt_Cai m ! y ! x \<and> tt_Cai m ! y ! x \<le> 0.01"
    using c cai_in_range_iff[OF tt_wf_grids(2)[OF wf]] by blast
  have "0.0001 \<le> tt_Cai m' ! y ! x \<and> tt_Cai m' ! y ! x \<le> 0.01"
    if "y < ce_height m" "x < ce_width m" for y x
  proof (cases "ce_mi_region m ! y ! x")
    case True
    with m'(4)[rule_format, OF that] have "tt_Cai m' ! y ! x = tt_Cai m ! y ! x" by simp
    with c0[rule_format, OF that] show ?thesis by simp
  next
    case False
    with m'(4)[rule_format, OF that] show ?thesis by simp
  qed
  then have "cai_in_range (tt_Cai m')"
    using cai_in_range_iff[OF tt_wf_grids(2)[OF m'(2)]] st by simp
  with m'(1,2,4) st show ?thesis by auto
qed

lemma tt_run_props:
  assumes wf: "tt_wf m"
  shows "\<exists>m'. tt_run n m = Inr m' \<and> tt_wf m' \<and>
           ce_height m' = ce_height m \<and> ce_width m' = ce_width m \<and>
           ce_mi_region m' = ce_mi_region m \<and>
           (cai_in_range (tt_Cai m) \<longrightarrow> cai_in_range (tt_Cai m')) \<and>
           (\<forall>y x. y < ce_height m \<longrightarrow> x < ce_width m \<longrightarrow> ce_mi_region m ! y ! x \<longrightarrow>
                tt_V m' ! y ! x = tt_V m ! y ! x)"
  using wf
proof (induction n arbitrary: m)
  case 0
  then show ?case by simp
next
  case (Suc n)
  from tt_step_props[OF Suc.prems] obtain m1 where m1: "tt_step m = Inr m1" "tt_wf m1"
    "m1 = m\<lparr>tt_V := tt_V m1, tt_m := tt_m m1, tt_u := tt_u m1,
           tt_Cai := tt_Cai m1, ce_time := ce_time m + ce_dt m\<rparr>"
    "\<forall>y x. y < ce_height m \<longrightarrow> x < ce_width m \<longrightarrow>
              (if ce_mi_region m ! y ! x
               then tt_V m1 ! y ! x = tt_V m ! y ! x \<and> tt_Cai m1 ! y ! x = tt_Cai m ! y ! x
               else 0.0001 \<le> tt_Cai m1 ! y ! x \<and> tt_Cai m1 ! y ! x \<le> 0.01)"
    by blast
  have st: "ce_height m1 = ce_height m" "ce_width m1 = ce_width m" "ce_mi_region m1 = ce_mi_region m"
    by (subst m1(3), simp)+
  have c1: "cai_in_range (tt_Cai m1)" if "cai_in_range (tt_Cai m)"
    using tt_step_cai[OF Suc.prems that] m1(1) by auto
  from Suc.IH[OF m1(2)] obtain m' where m': "tt_run n m1 = Inr m'" "tt_wf m'"
    "ce_height m' = ce_height m1" "ce_width m' = ce_width m1" "ce_mi_region m' = ce_mi_region m1"
    "cai_in_range (tt_Cai m1) \<longrightarrow> cai_in_range (tt_Cai m')"
    "\<forall>y x. y < ce_height m1 \<longrightarrow> x < ce_width m1 \<longrightarrow> ce_mi_region m1 ! y ! x \<longrightarrow>
                tt_V m' ! y ! x = tt_V m1 ! y ! x"
    by blast
  have "tt_V m' ! y ! x = tt_V m ! y ! x"
    if "y < ce_height m" "x < ce_width m" "ce_mi_region m ! y ! x" for y x
    using m'(7)[rule_format, of y x] m1(4)[rule_format, of y x] that st by simp
  then show ?case
    using m1(1) m'(1,2,3,4,5,6) st c1 by simp
qed


lemma tt_wf_setMIRegion:
  assumes "tt_wf m" and "is_grid (ce_height m) (ce_width m) mi"
  shows "setMIRegion m mi = m\<lparr>ce_mi_region := mi\<rparr>" and "tt_wf (setMIRegion m mi)"
proof -
  have "length mi = ce_height m" and "ce_height m > 0 \<longrightarrow> length (mi ! 0) = ce_width m"
    using assms(2) by (auto simp: is_grid_def list_all_length)
  then show eq: "setMIRegion m mi = m\<lparr>ce_mi_region := mi\<rparr>"
    by (auto simp: setMIRegion_def)
  show "tt_wf (setMIRegion m mi)"
    unfolding eq using assms by (simp add: tt_wf_def mask_covers_is_grid)
qed

lemma tt_wf_TenTusscherModel: "tt_wf (TenTusscherModel w h dt)"
  by (simp add: TenTusscherModel_def tt_setVariant_def tt_wf_def is_grid_new_grid mask_covers_is_grid)

lemma tt_diffusion_scar_zero:
  assumes "tt_wf m"
  shows "\<exists>dV. ce_applyDiffusion m (tt_V m) (new_grid (ce_height m) (ce_width m) 0) = Inr dV \<and>
           (\<forall>y x. y < ce_height m \<longrightarrow> x < ce_width m \<longrightarrow> ce_mi_region m ! y ! x \<longrightarrow> dV ! y ! x = 0)"
proof -
  from ce_applyDiffusion_cells[OF tt_wf_grids(1)[OF assms]
      is_grid_new_grid[of "ce_height m" "ce_width m" "0::real"] refl refl tt_wf_grids(3)[OF assms]]
  obtain dV where dV: "ce_applyDiffusion m (tt_V m) (new_grid (ce_height m) (ce_width m) 0) = Inr dV"
    "\<forall>y x. dV ! y ! x = (if interior (ce_height m) (ce_width m) y x then ce_diffusion_value m (tt_V m) y x
                         else new_grid (ce_height m) (ce_width m) 0 ! y ! x)"
    by blast
  have "dV ! y ! x = 0" if "y < ce_height m" "x < ce_width m" "ce_mi_region m ! y ! x" for y x
    using dV(2)[rule_format, of y x] that by (simp add: ce_diffusion_value_def new_grid_nth)
  with dV(1) show ?thesis by blast
qed

section \<open>What a run depends on\<close>

lemma fhn_wf_grids:
  assumes "fhn_wf m"
  shows "is_grid (fhn_height m) (fhn_width m) (fhn_u m)" "is_grid (fhn_height m) (fhn_width m) (fhn_v m)"
  using assms by (simp_all add: fhn_wf_def)

lemma fhn_step_agree:
  assumes w1: "fhn_wf m1" and w2: "fhn_wf m2" and ag: "fhn_agree m1 m2"
  shows "\<exists>r1 r2. fhn_step m1 = Inr r1 \<and> fhn_step m2 = Inr r2 \<and> fhn_wf r1 \<and> fhn_wf r2 \<and> fhn_agree r1 r2"
proof -
  from fhn_step_closed[OF w1] obtain r1 du1 dv1 where r1:
    "\<forall>y x. y < fhn_height m1 \<longrightarrow> x < fhn_width m1 \<longrightarrow>
         du1 ! y ! x = fhn_diffusion_term m1 (fhn_u m1) (fhn_du m1) y x \<and>
         dv1 ! y ! x = fhn_diffusion_term m1 (fhn_v m1) (fhn_dv m1) y x"
    "fhn_step m1 = Inr r1" "fhn_wf r1"
    "r1 = m1\<lparr>fhn_u := fhn_u r1, fhn_v := fhn_v r1, fhn_u_new := fhn_u m1, fhn_v_new := fhn_v m1,
             fhn_time := fhn_time m1 + fhn_dt m1\<rparr>"
    "\<forall>y x. y < fhn_height m1 \<longrightarrow> x < fhn_width m1 \<longrightarrow>
         fhn_u r1 ! y ! x = fhn_u m1 ! y ! x + fhn_dt m1 *
            (du1 ! y ! x + reactionU (fhn_u m1 ! y ! x) (fhn_v m1 ! y ! x) (fhn_stimulus m1 ! y ! x)) \<and>
         fhn_v r1 ! y ! x = fhn_v m1 ! y ! x + fhn_dt m1 *
            (dv1 ! y ! x + reactionV m1 (fhn_u m1 ! y ! x) (fhn_v m1 ! y ! x))"
    by blast
  from fhn_step_closed[OF w2] obtain r2 du2 dv2 where r2:
    "\<forall>y x. y < fhn_height m2 \<longrightarrow> x < fhn_width m2 \<longrightarrow>
         du2 ! y ! x = fhn_diffusion_term m2 (fhn_u m2) (fhn_du m2) y x \<and>
         dv2 ! y ! x = fhn_diffusion_term m2 (fhn_v m2) (fhn_dv m2) y x"
    "fhn_step m2 = Inr r2" "fhn_wf r2"
    "r2 = m2\<lparr>fhn_u := fhn_u r2, fhn_v := fhn_v r2, fhn_u_new := fhn_u m2, fhn_v_new := fhn_v m2,
             fhn_time := fhn_time m2 + fhn_dt m2\<rparr>"
    "\<forall>y x. y < fhn_height m2 \<longrightarrow> x < fhn_width m2 \<longrightarrow>
         fhn_u r2 ! y ! x = fhn_u m2 ! y ! x + fhn_dt m2 *
            (du2 ! y ! x + reactionU (fhn_u m2 ! y ! x) (fhn_v m2 ! y ! x) (fhn_stimulus m2 ! y ! x)) \<and>
         fhn_v r2 ! y ! x = fhn_v m2 ! y ! x + fhn_dt m2 *
            (dv2 ! y ! x + reactionV m2 (fhn_u m2 ! y ! x) (fhn_v m2 ! y ! x))"
    by blast
  have st1: "fhn_width r1 = fhn_width m1" "fhn_height r1 = fhn_height m1" "fhn_dt r1 = fhn_dt m1"
    "fhn_time r1 = fhn_time m1 + fhn_dt m1" "fhn_a r1 = fhn_a m1" "fhn_b r1 = fhn_b m1"
    "fhn_c r1 = fhn_c m1" "fhn_du r1 = fhn_du m1" "fhn_dv r1 = fhn_dv m1"
    "fhn_stimulus r1 = fhn_stimulus m1"
    by (subst r1(4), simp)+
  have st2: "fhn_width r2 = fhn_width m2" "fhn_height r2 = fhn_height m2" "fhn_dt r2 = fhn_dt m2"
    "fhn_time r2 = fhn_time m2 + fhn_dt m2" "fhn_a r2 = fhn_a m2" "fhn_b r2 = fhn_b m2"
    "fhn_c r2 = fhn_c m2" "fhn_du r2 = fhn_du m2" "fhn_dv r2 = fhn_dv m2"
    "fhn_stimulus r2 = fhn_stimulus m2"
    by (subst r2(4), simp)+
  have hw: "fhn_height m2 = fhn_height m1" "fhn_width m2 = fhn_width m1"
    using ag by (simp_all add: fhn_agree_def)
  have cell: "fhn_u r1 ! y ! x = fhn_u r2 ! y ! x \<and> fhn_v r1 ! y ! x = fhn_v r2 ! y ! x"
    if "y < fhn_height m1" "x < fhn_width m1" for y x
    using r1(1)[rule_format, OF that] r1(5)[rule_format, OF that]
      r2(1)[rule_format, of y x] r2(5)[rule_format, of y x] that hw ag
    by (simp add: fhn_agree_def fhn_diffusion_term_def reactionV_def)
  have u: "fhn_u r1 = fhn_u r2"
    by (rule is_grid_eqI[of "fhn_height m1" "fhn_width m1"])
       (use fhn_wf_grids(1)[OF r1(3)] fhn_wf_grids(1)[OF r2(3)] st1 st2 hw cell in simp_all)
  have v: "fhn_v r1 = fhn_v r2"
    by (rule is_grid_eqI[of "fhn_height m1" "fhn_width m1"])
       (use fhn_wf_grids(2)[OF r1(3)] fhn_wf_grids(2)[OF r2(3)] st1 st2 hw cell in simp_all)
  have "fhn_agree r1 r2"
    using ag u v st1 st2 by (simp add: fhn_agree_def)
  with r1(2,3) r2(2,3) show ?thesis by blast
qed

lemma fhn_run_agree:
  assumes "fhn_wf m1" and "fhn_wf m2" and "fhn_agree m1 m2"
  shows "\<exists>r1 r2. fhn_run n m1 = Inr r1 \<and> fhn_run n m2 = Inr r2 \<and> fhn_agree r1 r2"
  using assms
proof (induction n arbitrary: m1 m2)
  case 0
  then show ?case by simp
next
  case (Suc n)
  from fhn_step_agree[OF Suc.prems] obtain r1 r2 where
    r: "fhn_step m1 = Inr r1" "fhn_step m2 = Inr r2" "fhn_wf r1" "fhn_wf r2" "fhn_agree r1 r2"
    by blast
  from Suc.IH[OF r(3,4,5)] r(1,2) show ?case by simp
qed

lemma for_loop_map:
  assumes "\<And>i s. body i (f s) = map_sum id f (body i s)"
  shows "for_loop is body (f s) = map_sum id f (for_loop is body s)"
proof (induction "is" arbitrary: s)
  case Nil
  then show ?case by simp
next
  case (Cons i "is")
  then show ?case by (cases "body i s") (simp_all add: assms)
qed

lemma lr_step_cell_unread:
  "lr_step_cell dV y x (map_prod id (lr_unread c g) s) =
     map_sum id (map_prod id (lr_unread c g)) (lr_step_cell dV y x s)"
  by (simp add: lr_step_cell_def lr_unread_def lr_calculateIonicCurrents_def lr_cell_in_range_def Let_def)

lemma ce_applyDiffusion_lr_unread:
  "ce_applyDiffusion (lr_unread c g m) grid r = ce_applyDiffusion m grid r"
proof -
  have "ce_diffusion_cell (lr_unread c g m) grid = ce_diffusion_cell m grid"
    by (intro ext) (simp add: ce_diffusion_cell_def lr_unread_def)
  then show ?thesis by (simp add: ce_applyDiffusion_def lr_unread_def)
qed

lemma lr_step_unread:
  "lr_step (lr_unread c g m) = map_sum id (lr_unread c g) (lr_step m)"
proof -
  have h: "ce_height (lr_unread c g m) = ce_height m" "ce_width (lr_unread c g m) = ce_width m"
    "lr_V (lr_unread c g m) = lr_V m"
    by (simp_all add: lr_unread_def)
  have row: "for_loop [0..<ce_width m] (lr_step_cell dV y) (map_prod id (lr_unread c g) s) =
      map_sum id (map_prod id (lr_unread c g)) (for_loop [0..<ce_width m] (lr_step_cell dV y) s)" for dV y s
    by (rule for_loop_map) (rule lr_step_cell_unread)
  have loop: "for_loop [0..<ce_height m] (\<lambda>y. for_loop [0..<ce_width m] (lr_step_cell dV y))
        (map_prod id (lr_unread c g) s) =
      map_sum id (map_prod id (lr_unread c g))
        (for_loop [0..<ce_height m] (\<lambda>y. for_loop [0..<ce_width m] (lr_step_cell dV y)) s)" for dV s
    by (rule for_loop_map) (rule row)
  have fin: "(lr_unread c g s)\<lparr>lr_V := v, ce_time := ce_time (lr_unread c g s) + ce_dt (lr_unread c g s)\<rparr>
        = lr_unread c g (s\<lparr>lr_V := v, ce_time := ce_time s + ce_dt s\<rparr>)" for s v
    by (simp add: lr_unread_def)
  show ?thesis
    unfolding lr_step_def Let_def h ce_applyDiffusion_lr_unread
    using loop[of _ "(new_grid (ce_height m) (ce_width m) 0, m)"]
    by (auto simp: fin split: sum.splits)
qed

lemma lr_run_unread:
  "lr_run n (lr_unread c g m) = map_sum id (lr_unread c g) (lr_run n m)"
proof (induction n arbitrary: m)
  case 0
  then show ?case by simp
next
  case (Suc n)
  then show ?case by (cases "lr_step m") (simp_all add: lr_step_unread)
qed

section \<open>Inputs whose rows differ in length\<close>

lemma mask_covers_iff:
  "mask_covers h w mi \<longleftrightarrow> (\<forall>y x. y < h \<longrightarrow> x < w \<longrightarrow> in_grid mi y x)"
  by (auto simp: mask_covers_def list_all_iff)

lemma rows_cover:
  assumes "length g = h" and "\<forall>y<h. w \<le> length (g ! y)"
  shows "mask_covers h w g"
  using assms by (auto simp: mask_covers_iff in_grid_def)

lemma lr_wf_setMIRegion_rows:
  assumes "lr_wf m" and "length mi = ce_height m"
    and "ce_height m > 0 \<longrightarrow> length (mi ! 0) = ce_width m"
    and "\<forall>y<ce_height m. ce_width m \<le> length (mi ! y)"
  shows "lr_wf (setMIRegion m mi)"
proof -
  have eq: "setMIRegion m mi = m\<lparr>ce_mi_region := mi\<rparr>"
    using assms(2,3) by (auto simp: setMIRegion_def)
  show ?thesis
    unfolding eq using assms(1) rows_cover[OF assms(2,4)] by (simp add: lr_wf_def)
qed

lemma tt_wf_setMIRegion_rows:
  assumes "tt_wf m" and "length mi = ce_height m"
    and "ce_height m > 0 \<longrightarrow> length (mi ! 0) = ce_width m"
    and "\<forall>y<ce_height m. ce_width m \<le> length (mi ! y)"
  shows "tt_wf (setMIRegion m mi)"
proof -
  have eq: "setMIRegion m mi = m\<lparr>ce_mi_region := mi\<rparr>"
    using assms(2,3) by (auto simp: setMIRegion_def)
  show ?thesis
    unfolding eq using assms(1) rows_cover[OF assms(2,4)] by (simp add: tt_wf_def)
qed

text \<open>The only fault a step can raise is an access out of range.\<close>

lemma ce_applyDiffusion_Inl: "ce_applyDiffusion m grid r = Inl e \<Longrightarrow> e = OutOfBounds"
  unfolding ce_applyDiffusion_def
  by (drule for_loop_Inl, clarify, drule for_loop_Inl)
     (auto simp: ce_diffusion_cell_def Let_def split: if_splits)

lemma lr_step_cell_Inl: "lr_step_cell dV y x s = Inl e \<Longrightarrow> e = OutOfBounds"
  by (auto simp: lr_step_cell_def Let_def split: if_splits)

lemma tt_step_cell_Inl: "tt_step_cell dV y x s = Inl e \<Longrightarrow> e = OutOfBounds"
  by (auto simp: tt_step_cell_def Let_def split: if_splits)

lemma lr_step_Inl: "lr_step m = Inl e \<Longrightarrow> e = OutOfBounds"
  unfolding lr_step_def Let_def
  by (auto split: sum.splits dest!: ce_applyDiffusion_Inl for_loop_Inl lr_step_cell_Inl)

lemma tt_step_Inl: "tt_step m = Inl e \<Longrightarrow> e = OutOfBounds"
  unfolding tt_step_def Let_def
  by (auto split: sum.splits dest!: ce_applyDiffusion_Inl for_loop_Inl tt_step_cell_Inl)

lemma lr_step_cell_mask:
  "lr_step_cell dV y x s = Inr s' \<Longrightarrow> ce_mi_region (snd s') = ce_mi_region (snd s)"
  by (auto simp: lr_step_cell_def Let_def split: if_splits)

lemma tt_step_cell_mask:
  "tt_step_cell dV y x s = Inr s' \<Longrightarrow> ce_mi_region (snd s') = ce_mi_region (snd s)"
  by (auto simp: tt_step_cell_def Let_def split: if_splits)

lemma lr_step_short_row:
  assumes "y0 < ce_height m" and "length (ce_mi_region m ! y0) < ce_width m"
  shows "lr_step m = Inl OutOfBounds"
proof -
  let ?I = "\<lambda>s. ce_mi_region (snd s) = ce_mi_region m"
  let ?x0 = "length (ce_mi_region m ! y0)"
  have rowI: "?I s'" if "?I s" "for_loop [0..<ce_width m] (lr_step_cell dV y) s = Inr s'" for dV y s s'
    by (rule for_loop_invariant[where I = ?I, OF that(1) _ that(2)]) (simp add: lr_step_cell_mask)
  have cell: "\<exists>e. lr_step_cell dV y0 ?x0 s = Inl e" if "?I s" for dV s
    using that by (simp add: lr_step_cell_def Let_def in_grid_def)
  have row: "\<exists>e. for_loop [0..<ce_width m] (lr_step_cell dV y0) s = Inl e" if "?I s" for dV s
    by (rule for_loop_fault[where I = ?I and ?i0.0 = ?x0, OF that])
       (use assms(2) cell in \<open>auto simp: lr_step_cell_mask\<close>)
  have loop: "\<exists>e. for_loop [0..<ce_height m] (\<lambda>y. for_loop [0..<ce_width m] (lr_step_cell dV y)) s = Inl e"
    if "?I s" for dV s
    by (rule for_loop_fault[where I = ?I and ?i0.0 = y0, OF that])
       (use assms(1) row rowI in auto)
  have "\<exists>e. lr_step m = Inl e"
  proof (cases "ce_applyDiffusion m (lr_V m) (new_grid (ce_height m) (ce_width m) 0)")
    case (Inl e)
    then show ?thesis by (simp add: lr_step_def Let_def)
  next
    case (Inr dV)
    from loop[of "(new_grid (ce_height m) (ce_width m) 0, m)" dV]
    obtain e where "for_loop [0..<ce_height m] (\<lambda>y. for_loop [0..<ce_width m] (lr_step_cell dV y))
                      (new_grid (ce_height m) (ce_width m) 0, m) = Inl e"
      by auto
    with Inr show ?thesis by (simp add: lr_step_def Let_def)
  qed
  then show ?thesis using lr_step_Inl by blast
qed

lemma tt_step_short_row:
  assumes "y0 < ce_height m" and "length (ce_mi_region m ! y0) < ce_width m"
  shows "tt_step m = Inl OutOfBounds"
proof -
  let ?I = "\<lambda>s. ce_mi_region (snd s) = ce_mi_region m"
  let ?x0 = "length (ce_mi_region m ! y0)"
  have rowI: "?I s'" if "?I s" "for_loop [0..<ce_width m] (tt_step_cell dV y) s = Inr s'" for dV y s s'
    by (rule for_loop_invariant[where I = ?I, OF that(1) _ that(2)]) (simp add: tt_step_cell_mask)
  have cell: "\<exists>e. tt_step_cell dV y0 ?x0 s = Inl e" if "?I s" for dV s
    using that by (simp add: tt_step_cell_def Let_def in_grid_def)
  have row: "\<exists>e. for_loop [0..<ce_width m] (tt_step_cell dV y0) s = Inl e" if "?I s" for dV s
    by (rule for_loop_fault[where I = ?I and ?i0.0 = ?x0, OF that])
       (use assms(2) cell in \<open>auto simp: tt_step_cell_mask\<close>)
  have loop: "\<exists>e. for_loop [0..<ce_height m] (\<lambda>y. for_loop [0..<ce_width m] (tt_step_cell dV y)) s = Inl e"
    if "?I s" for dV s
    by (rule for_loop_fault[where I = ?I and ?i0.0 = y0, OF that])
       (use assms(1) row rowI in auto)
  have "\<exists>e. tt_step m = Inl e"
  proof (cases "ce_applyDiffusion m (tt_V m) (new_grid (ce_height m) (ce_width m) 0)")
    case (Inl e)
    then show ?thesis by (simp add: tt_step_def Let_def)
  next
    case (Inr dV)
    from loop[of "(new_grid (ce_height m) (ce_width m) 0, m)" dV]
    obtain e where "for_loop [0..<ce_height m] (\<lambda>y. for_loop [0..<ce_width m] (tt_step_cell dV y))
                      (new_grid (ce_height m) (ce_width m) 0, m) = Inl e"
      by auto
    with Inr show ?thesis by (simp add: tt_step_def Let_def)
  qed
  then show ?thesis using tt_step_Inl by blast
qed


lemma copy_cell_Inl: "copy_cell ui vi y x s = Inl e \<Longrightarrow> e = OutOfBounds"
  by (auto simp: copy_cell_def split: if_splits)

lemma setInitialConditions_Inl: "setInitialConditions m ui vi = Inl e \<Longrightarrow> e = OutOfBounds"
  unfolding setInitialConditions_def
  by (auto split: if_splits sum.splits dest!: for_loop_Inl copy_cell_Inl)

lemma setInitialConditions_short_row:
  assumes acc: "length ui = fhn_height m" "length vi = fhn_height m"
      "fhn_height m > 0 \<longrightarrow> length (ui ! 0) = fhn_width m \<and> length (vi ! 0) = fhn_width m"
    and y0: "y0 < fhn_height m"
    and short: "length (ui ! y0) < fhn_width m \<or> length (vi ! y0) < fhn_width m"
  shows "setInitialConditions m ui vi = Inl OutOfBounds"
proof -
  obtain x0 where x0: "x0 < fhn_width m" "\<not> (in_grid ui y0 x0 \<and> in_grid vi y0 x0)"
    using short by (auto simp: in_grid_def)
  have cell: "\<exists>e. copy_cell ui vi y0 x0 s = Inl e" for s
    using x0(2) by (auto simp: copy_cell_def)
  have row: "\<exists>e. for_loop [0..<fhn_width m] (copy_cell ui vi y0) s = Inl e" for s
    by (rule for_loop_fault[where I = "\<lambda>_. True" and ?i0.0 = x0]) (use x0(1) cell in auto)
  have "\<exists>e. for_loop [0..<fhn_height m] (\<lambda>y. for_loop [0..<fhn_width m] (copy_cell ui vi y))
              (fhn_u m, fhn_v m) = Inl e"
    by (rule for_loop_fault[where I = "\<lambda>_. True" and ?i0.0 = y0]) (use y0 row in auto)
  then have "\<exists>e. setInitialConditions m ui vi = Inl e"
    using acc y0 by (auto simp: setInitialConditions_def)
  then show ?thesis using setInitialConditions_Inl by blast
qed

lemma setInitialConditions_rows:
  assumes wf: "fhn_wf m"
    and acc: "length ui = fhn_height m" "length vi = fhn_height m"
      "fhn_height m > 0 \<longrightarrow> length (ui ! 0) = fhn_width m \<and> length (vi ! 0) = fhn_width m"
    and rows: "\<forall>y<fhn_height m. fhn_width m \<le> length (ui ! y) \<and> fhn_width m \<le> length (vi ! y)"
  shows "\<exists>m'. setInitialConditions m ui vi = Inr m' \<and> fhn_wf m' \<and>
           m' = m\<lparr>fhn_u := fhn_u m', fhn_v := fhn_v m'\<rparr> \<and>
           (\<forall>y x. y < fhn_height m \<longrightarrow> x < fhn_width m \<longrightarrow>
              fhn_u m' ! y ! x = ui ! y ! x \<and> fhn_v m' ! y ! x = vi ! y ! x)"
proof -
  let ?h = "fhn_height m" and ?w = "fhn_width m"
  let ?ok = "\<lambda>s :: real grid \<times> real grid. is_grid ?h ?w (fst s) \<and> is_grid ?h ?w (snd s)"
  let ?view = "\<lambda>(s :: real grid \<times> real grid) k. (cell_at (fst s) k, cell_at (snd s) k)"
  let ?R = "\<lambda>k (c :: real \<times> real) c'. c' = (cell_at ui k, cell_at vi k)"
  have ok0: "?ok (fhn_u m, fhn_v m)" using wf by (simp add: fhn_wf_def)
  have cell: "\<exists>s'. copy_cell ui vi y x s = Inr s' \<and> ?ok s' \<and>
                (\<forall>k. if k = (y, x) then ?R k (?view s k) (?view s' k) else ?view s' k = ?view s k)"
    if "0 \<le> y" "y < ?h" "0 \<le> x" "x < ?w" "?ok s" for y x s
  proof -
    have "in_grid ui y x" "in_grid vi y x"
      using that rows acc(1,2) by (auto simp: in_grid_def)
    moreover have "in_grid (fst s) y x" "in_grid (snd s) y x"
      using that by (auto intro: is_grid_in_grid)
    ultimately have ing: "in_grid ui y x" "in_grid vi y x" "in_grid (fst s) y x" "in_grid (snd s) y x"
      by simp_all
    show ?thesis
      using ing that(5)
      by (simp add: copy_cell_def is_grid_grid_set cell_at_grid_set) (simp add: cell_at_def)
  qed
  have "\<exists>s'. for_loop [0..<?h] (\<lambda>y. for_loop [0..<?w] (copy_cell ui vi y)) (fhn_u m, fhn_v m) = Inr s'
          \<and> ?ok s' \<and>
          (\<forall>y x. if 0 \<le> y \<and> y < ?h \<and> 0 \<le> x \<and> x < ?w
                 then ?R (y, x) (?view (fhn_u m, fhn_v m) (y, x)) (?view s' (y, x))
                 else ?view s' (y, x) = ?view (fhn_u m, fhn_v m) (y, x))"
    by (rule for_loop2_cells[where ok = ?ok and view = ?view and R = ?R, OF ok0 cell])
  then obtain s' where s': "for_loop [0..<?h] (\<lambda>y. for_loop [0..<?w] (copy_cell ui vi y)) (fhn_u m, fhn_v m) = Inr s'"
    "is_grid ?h ?w (fst s')" "is_grid ?h ?w (snd s')"
    "\<forall>y x. y < ?h \<longrightarrow> x < ?w \<longrightarrow> fst s' ! y ! x = ui ! y ! x \<and> snd s' ! y ! x = vi ! y ! x"
    by (auto simp: cell_at_def split: if_splits)
  let ?m' = "m\<lparr>fhn_u := fst s', fhn_v := snd s'\<rparr>"
  have "setInitialConditions m ui vi = Inr ?m'"
    using acc s'(1) by (auto simp: setInitialConditions_def)
  moreover have "fhn_wf ?m'" using wf s'(2,3) by (simp add: fhn_wf_def)
  ultimately show ?thesis using s'(4) by (intro exI[of _ ?m']) simp
qed

section \<open>Saving and loading a state\<close>

lemma extract_double_num:
  assumes "\<not> is_fail s" and "is_toks s = t # rest" and "t \<noteq> BadTok"
  shows "extract_double s old = (tok_value t, s\<lparr>is_toks := rest\<rparr>)"
  using assms by (cases t) (simp_all add: extract_double_def tok_value_def)

lemma extract_double_stop:
  assumes "\<not> is_fail s" and "is_toks s = [] \<or> (\<exists>r. is_toks s = BadTok # r)"
  shows "is_fail (snd (extract_double s old))"
  using assms by (auto simp: extract_double_def)

lemma tok_value_put_double: "tok_value (put_double x) = round_sig6 x"
  by (simp add: put_double_def tok_value_def Let_def)

lemma put_double_num: "put_double x \<noteq> BadTok"
  by (simp add: put_double_def Let_def)

lemma read_field_row_good:
  assumes "\<not> is_fail s" and "is_toks s = ts @ rest" and "i + length ts = w"
    and "\<forall>t\<in>set ts. t \<noteq> BadTok" and "is_grid h w g" and "y < h"
  shows "\<exists>g'. read_field_row [i..<w] y (s, g) = Inr (True, s\<lparr>is_toks := rest\<rparr>, g') \<and> is_grid h w g' \<and>
           (\<forall>k. cell_at g' k = (if fst k = y \<and> i \<le> snd k \<and> snd k < w
                                 then tok_value (ts ! (snd k - i)) else cell_at g k))"
  using assms
proof (induction ts arbitrary: i s g)
  case Nil
  then have "s\<lparr>is_toks := rest\<rparr> = s" by simp
  with Nil show ?case by simp
next
  case (Cons t ts)
  have iw: "i < w" using Cons.prems(3) by simp
  have up: "[i..<w] = i # [Suc i..<w]" using iw by (simp add: upt_conv_Cons)
  have ing: "in_grid g y i" by (rule is_grid_in_grid[OF Cons.prems(5,6) iw])
  let ?s1 = "s\<lparr>is_toks := ts @ rest\<rparr>"
  let ?g1 = "grid_set g y i (tok_value t)"
  have ex: "extract_double s (g ! y ! i) = (tok_value t, ?s1)"
    by (rule extract_double_num) (use Cons.prems in auto)
  have nf: "\<not> is_fail ?s1" using Cons.prems(1) by simp
  have step: "read_field_row [i..<w] y (s, g) = read_field_row [Suc i..<w] y (?s1, ?g1)"
    unfolding up using ing ex nf by (simp add: Let_def)
  from Cons.IH[of ?s1 "Suc i" ?g1] nf Cons.prems is_grid_grid_set[OF Cons.prems(5)]
  obtain g' where g': "read_field_row [Suc i..<w] y (?s1, ?g1) = Inr (True, ?s1\<lparr>is_toks := rest\<rparr>, g')"
    "is_grid h w g'"
    "\<forall>k. cell_at g' k = (if fst k = y \<and> Suc i \<le> snd k \<and> snd k < w
                                 then tok_value (ts ! (snd k - Suc i)) else cell_at ?g1 k)"
    by auto
  have "cell_at g' k = (if fst k = y \<and> i \<le> snd k \<and> snd k < w
                                 then tok_value ((t # ts) ! (snd k - i)) else cell_at g k)" for k
  proof (cases "k = (y, i)")
    case True
    then show ?thesis using g'(3)[rule_format, of k] ing iw by (simp add: cell_at_grid_set)
  next
    case False
    then have "fst k = y \<and> i \<le> snd k \<longleftrightarrow> fst k = y \<and> Suc i \<le> snd k"
      by (cases k) auto
    moreover have "(t # ts) ! (snd k - i) = ts ! (snd k - Suc i)" if "Suc i \<le> snd k"
      using that by (simp add: Suc_diff_le)
    ultimately show ?thesis
      using g'(3)[rule_format, of k] False by (auto simp: cell_at_grid_set_other)
  qed
  with g'(1,2) step show ?case by simp
qed

lemma read_field_row_grid:
  assumes "is_grid h w g" and "read_field_row xs y (s, g) = Inr (b, s', g')"
  shows "is_grid h w g'"
  using assms
proof (induction xs arbitrary: s g)
  case Nil
  then show ?case by simp
next
  case (Cons x xs)
  show ?case
  proof (cases "is_fail (snd (extract_double s (g ! y ! x)))")
    case True
    with Cons.prems show ?thesis
      by (auto simp: Let_def is_grid_grid_set split: if_splits)
  next
    case False
    with Cons.prems have "read_field_row xs y (snd (extract_double s (g ! y ! x)),
        grid_set g y x (fst (extract_double s (g ! y ! x)))) = Inr (b, s', g')"
      by (auto simp: Let_def split: if_splits)
    from Cons.IH[OF is_grid_grid_set[OF Cons.prems(1)] this] show ?thesis .
  qed
qed

lemma read_field_grid:
  assumes "is_grid h w g" and "read_field ys w (s, g) = Inr (b, s', g')"
  shows "is_grid h w g'"
  using assms
proof (induction ys arbitrary: s g)
  case Nil
  then show ?case by simp
next
  case (Cons y ys)
  from Cons.prems(2) obtain r where r: "read_field_row [0..<w] y (s, g) = Inr r"
    by (cases "read_field_row [0..<w] y (s, g)") auto
  obtain b1 s1 g1 where r1: "r = (b1, s1, g1)" by (cases r) auto
  have g1: "is_grid h w g1" by (rule read_field_row_grid[OF Cons.prems(1) r[unfolded r1]])
  show ?case
  proof (cases b1)
    case True
    with Cons.prems(2) r r1 have "read_field ys w (s1, g1) = Inr (b, s', g')" by simp
    from Cons.IH[OF g1 this] show ?thesis .
  next
    case False
    with Cons.prems(2) r r1 g1 show ?thesis by simp
  qed
qed

lemma read_field_good:
  assumes "\<not> is_fail s" and "is_toks s = concat tss @ rest" and "j + length tss = h"
    and "\<forall>ts\<in>set tss. length ts = w \<and> (\<forall>t\<in>set ts. t \<noteq> BadTok)" and "is_grid h w g"
  shows "\<exists>g'. read_field [j..<h] w (s, g) = Inr (True, s\<lparr>is_toks := rest\<rparr>, g') \<and> is_grid h w g' \<and>
           (\<forall>k. cell_at g' k = (if j \<le> fst k \<and> fst k < h \<and> snd k < w
                                 then tok_value (tss ! (fst k - j) ! snd k) else cell_at g k))"
  using assms
proof (induction tss arbitrary: j s g)
  case Nil
  then have "s\<lparr>is_toks := rest\<rparr> = s" by simp
  with Nil show ?case by simp
next
  case (Cons ts tss)
  have jh: "j < h" using Cons.prems(3) by simp
  have up: "[j..<h] = j # [Suc j..<h]" using jh by (simp add: upt_conv_Cons)
  have ts: "length ts = w" "\<forall>t\<in>set ts. t \<noteq> BadTok" using Cons.prems(4) by simp_all
  let ?s1 = "s\<lparr>is_toks := concat tss @ rest\<rparr>"
  from read_field_row_good[of s ts "concat tss @ rest" 0 w h g j] Cons.prems ts jh
  obtain g1 where g1: "read_field_row [0..<w] j (s, g) = Inr (True, ?s1, g1)" "is_grid h w g1"
    "\<forall>k. cell_at g1 k = (if fst k = j \<and> 0 \<le> snd k \<and> snd k < w
                                 then tok_value (ts ! (snd k - 0)) else cell_at g k)"
    by auto
  have nf: "\<not> is_fail ?s1" using Cons.prems(1) by simp
  from Cons.IH[of ?s1 "Suc j" g1] nf Cons.prems g1(2)
  obtain g' where g': "read_field [Suc j..<h] w (?s1, g1) = Inr (True, ?s1\<lparr>is_toks := rest\<rparr>, g')"
    "is_grid h w g'"
    "\<forall>k. cell_at g' k = (if Suc j \<le> fst k \<and> fst k < h \<and> snd k < w
                                 then tok_value (tss ! (fst k - Suc j) ! snd k) else cell_at g1 k)"
    by auto
  have "cell_at g' k = (if j \<le> fst k \<and> fst k < h \<and> snd k < w
                                 then tok_value ((ts # tss) ! (fst k - j) ! snd k) else cell_at g k)" for k
  proof (cases "fst k = j")
    case True
    then show ?thesis using g'(3)[rule_format, of k] g1(3)[rule_format, of k] jh by simp
  next
    case False
    moreover have "(ts # tss) ! (fst k - j) = tss ! (fst k - Suc j)" if "Suc j \<le> fst k"
      using that by (simp add: Suc_diff_le)
    ultimately show ?thesis
      using g'(3)[rule_format, of k] g1(3)[rule_format, of k] by auto
  qed
  with g1(1) g'(1,2) show ?case unfolding up by simp
qed


lemma read_field_row_bad:
  assumes "\<not> is_fail s" and "is_toks s = ts @ bad" and "i + length ts < w"
    and "\<forall>t\<in>set ts. t \<noteq> BadTok" and "bad = [] \<or> (\<exists>r. bad = BadTok # r)"
    and "is_grid h w g" and "y < h"
  shows "\<exists>s' g'. read_field_row [i..<w] y (s, g) = Inr (False, s', g')"
  using assms
proof (induction ts arbitrary: i s g)
  case Nil
  have iw: "i < w" using Nil.prems(3) by simp
  have up: "[i..<w] = i # [Suc i..<w]" using iw by (simp add: upt_conv_Cons)
  have ing: "in_grid g y i" by (rule is_grid_in_grid[OF Nil.prems(6,7) iw])
  have "is_fail (snd (extract_double s (g ! y ! i)))"
    by (rule extract_double_stop) (use Nil.prems in auto)
  then show ?case unfolding up using ing by (simp add: Let_def)
next
  case (Cons t ts)
  have iw: "i < w" using Cons.prems(3) by simp
  have up: "[i..<w] = i # [Suc i..<w]" using iw by (simp add: upt_conv_Cons)
  have ing: "in_grid g y i" by (rule is_grid_in_grid[OF Cons.prems(6,7) iw])
  let ?s1 = "s\<lparr>is_toks := ts @ bad\<rparr>"
  let ?g1 = "grid_set g y i (tok_value t)"
  have ex: "extract_double s (g ! y ! i) = (tok_value t, ?s1)"
    by (rule extract_double_num) (use Cons.prems in auto)
  have nf: "\<not> is_fail ?s1" using Cons.prems(1) by simp
  have step: "read_field_row [i..<w] y (s, g) = read_field_row [Suc i..<w] y (?s1, ?g1)"
    unfolding up using ing ex nf by (simp add: Let_def)
  from Cons.IH[of ?s1 "Suc i" ?g1] nf Cons.prems is_grid_grid_set[OF Cons.prems(6)]
  show ?case unfolding step by auto
qed

lemma read_field_bad:
  assumes "\<not> is_fail s" and "is_toks s = ts @ bad" and "length ts < (h - j) * w"
    and "\<forall>t\<in>set ts. t \<noteq> BadTok" and "bad = [] \<or> (\<exists>r. bad = BadTok # r)"
    and "is_grid h w g"
  shows "\<exists>s' g'. read_field [j..<h] w (s, g) = Inr (False, s', g')"
  using assms
proof (induction "h - j" arbitrary: j s g ts)
  case 0
  then show ?case by simp
next
  case (Suc n)
  have jh: "j < h" using Suc.hyps(2) by simp
  have up: "[j..<h] = j # [Suc j..<h]" using jh by (simp add: upt_conv_Cons)
  show ?case
  proof (cases "length ts < w")
    case True
    from read_field_row_bad[of s ts bad 0 w h g j] Suc.prems True jh
    obtain s' g' where "read_field_row [0..<w] j (s, g) = Inr (False, s', g')" by auto
    then show ?thesis unfolding up by simp
  next
    case False
    let ?t1 = "take w ts" and ?t2 = "drop w ts"
    let ?s1 = "s\<lparr>is_toks := ?t2 @ bad\<rparr>"
    have sp: "is_toks s = ?t1 @ (?t2 @ bad)" using Suc.prems(2) by simp
    have l1: "0 + length ?t1 = w" using False by simp
    have n1: "\<forall>t\<in>set ?t1. t \<noteq> BadTok" using Suc.prems(4) by (auto dest: in_set_takeD)
    from read_field_row_good[OF Suc.prems(1) sp l1 n1 Suc.prems(6) jh]
    obtain g1 where g1: "read_field_row [0..<w] j (s, g) = Inr (True, ?s1, g1)" "is_grid h w g1"
      by blast
    have nf: "\<not> is_fail ?s1" using Suc.prems(1) by simp
    have n2: "\<forall>t\<in>set ?t2. t \<noteq> BadTok" using Suc.prems(4) by (auto dest: in_set_dropD)
    have "(h - j) * w = w + (h - Suc j) * w"
      using jh by (metis Suc.hyps(2) Suc_diff_Suc diff_Suc_Suc mult_Suc diff_zero)
    then have l2: "length ?t2 < (h - Suc j) * w" using Suc.prems(3) False by simp
    have hn: "n = h - Suc j" using Suc.hyps(2) by simp
    from Suc.hyps(1)[OF hn nf _ l2 n2 Suc.prems(5) g1(2)]
    obtain s' g' where "read_field [Suc j..<h] w (?s1, g1) = Inr (False, s', g')" by auto
    with g1(1) show ?thesis unfolding up by simp
  qed
qed

text \<open>What \<^verbatim>\<open>saveState\<close> writes.\<close>

lemma put_row:
  assumes "\<forall>x\<in>set xs. in_grid g y x"
  shows "for_loop xs (put_cell g y) out = Inr (out @ map (\<lambda>x. put_double (g ! y ! x)) xs)"
  using assms by (induction xs arbitrary: out) (simp_all add: put_cell_def)

lemma put_rows:
  assumes "\<forall>y\<in>set ys. \<forall>x<w. in_grid g y x"
  shows "for_loop ys (\<lambda>y. for_loop [0..<w] (put_cell g y)) out =
           Inr (out @ concat (map (\<lambda>y. map (\<lambda>x. put_double (g ! y ! x)) [0..<w]) ys))"
  using assms by (induction ys arbitrary: out) (simp_all add: put_row)

lemma put_field:
  assumes "is_grid h w g"
  shows "for_loop [0..<h] (\<lambda>y. for_loop [0..<w] (put_cell g y)) out =
           Inr (out @ concat (map (map put_double) g))"
proof -
  have "for_loop [0..<h] (\<lambda>y. for_loop [0..<w] (put_cell g y)) out =
           Inr (out @ concat (map (\<lambda>y. map (\<lambda>x. put_double (g ! y ! x)) [0..<w]) [0..<h]))"
    by (rule put_rows) (use assms in \<open>auto intro: is_grid_in_grid\<close>)
  moreover have "map (\<lambda>y. map (\<lambda>x. put_double (g ! y ! x)) [0..<w]) [0..<h] = map (map put_double) g"
  proof (rule nth_equalityI)
    show "length (map (\<lambda>y. map (\<lambda>x. put_double (g ! y ! x)) [0..<w]) [0..<h]) = length (map (map put_double) g)"
      using assms by (simp add: is_grid_def)
  next
    fix y assume "y < length (map (\<lambda>y. map (\<lambda>x. put_double (g ! y ! x)) [0..<w]) [0..<h])"
    then have y: "y < h" by simp
    then have ly: "y < length g" "length (g ! y) = w"
      using assms by (auto simp: is_grid_def list_all_length)
    show "map (\<lambda>y. map (\<lambda>x. put_double (g ! y ! x)) [0..<w]) [0..<h] ! y = map (map put_double) g ! y"
      using y ly by (auto intro!: nth_equalityI)
  qed
  ultimately show ?thesis by simp
qed

lemma saveState_output:
  assumes "fhn_wf m"
  shows "saveState m True =
     Inr (True, [IntTok (int (fhn_width m)), IntTok (int (fhn_height m)), put_double (fhn_time m),
                 put_double (fhn_a m), put_double (fhn_b m), put_double (fhn_c m),
                 put_double (fhn_d m), put_double (fhn_du m), put_double (fhn_dv m)]
                @ concat (map (map put_double) (fhn_u m)) @ concat (map (map put_double) (fhn_v m)))"
  using assms by (simp add: saveState_def Let_def fhn_wf_def put_field)


lemma loadState_mismatch:
  assumes "fw \<noteq> int (fhn_width m) \<or> fh \<noteq> int (fhn_height m)"
  shows "loadState m (Some (IntTok fw # IntTok fh # rest)) =
           Inr (False, m\<lparr>fhn_time := fst (extract_double \<lparr>is_toks = rest, is_fail = False\<rparr> (fhn_time m))\<rparr>)"
  using assms by (auto simp: loadState_def extract_int_def Let_def)

lemma loadState_header:
  assumes "length hdr = 7" and "\<forall>t\<in>set hdr. t \<noteq> BadTok"
  shows "loadState m (Some (IntTok (int (fhn_width m)) # IntTok (int (fhn_height m)) # hdr @ field)) =
     (case read_field [0..<fhn_height m] (fhn_width m) (\<lparr>is_toks = field, is_fail = False\<rparr>, fhn_u m) of
        Inl e \<Rightarrow> Inl e
      | Inr ru \<Rightarrow>
          if \<not> fst ru then Inr (False, (header_loaded m hdr)\<lparr>fhn_u := snd (snd ru)\<rparr>)
          else case read_field [0..<fhn_height m] (fhn_width m) (fst (snd ru), fhn_v m) of
                 Inl e \<Rightarrow> Inl e
               | Inr rv \<Rightarrow>
                   Inr (fst rv, (header_loaded m hdr)\<lparr>fhn_u := snd (snd ru), fhn_v := snd (snd rv)\<rparr>))"
proof -
  from assms(1) obtain t0 t1 t2 t3 t4 t5 t6 where h: "hdr = [t0, t1, t2, t3, t4, t5, t6]"
    by (auto simp: length_Suc_conv eval_nat_numeral)
  have n: "t0 \<noteq> BadTok" "t1 \<noteq> BadTok" "t2 \<noteq> BadTok" "t3 \<noteq> BadTok" "t4 \<noteq> BadTok" "t5 \<noteq> BadTok"
    "t6 \<noteq> BadTok"
    using assms(2) by (simp_all add: h)
  have e: "extract_double \<lparr>is_toks = t # r, is_fail = False\<rparr> old = (tok_value t, \<lparr>is_toks = r, is_fail = False\<rparr>)"
    if "t \<noteq> BadTok" for t r old
    using extract_double_num[of "\<lparr>is_toks = t # r, is_fail = False\<rparr>" t r old] that by simp
  show ?thesis
    unfolding h
    by (simp add: loadState_def extract_int_def Let_def e n header_loaded_def eval_nat_numeral
        split: sum.splits)
qed

lemma is_grid_map: "is_grid h w g \<Longrightarrow> is_grid h w (map (map f) g)"
  by (simp add: is_grid_def list_all_length)

lemma loadState_saved:
  assumes wm: "fhn_wf m" and wf: "fhn_wf f"
    and d: "fhn_width f = fhn_width m" "fhn_height f = fhn_height m"
    and sv: "saveState m True = Inr (True, file)"
  shows "loadState f (Some file) =
     Inr (True, f\<lparr>fhn_time := round_sig6 (fhn_time m), fhn_a := round_sig6 (fhn_a m),
                  fhn_b := round_sig6 (fhn_b m), fhn_c := round_sig6 (fhn_c m),
                  fhn_d := round_sig6 (fhn_d m), fhn_du := round_sig6 (fhn_du m),
                  fhn_dv := round_sig6 (fhn_dv m),
                  fhn_u := map (map round_sig6) (fhn_u m),
                  fhn_v := map (map round_sig6) (fhn_v m)\<rparr>)"
proof -
  let ?h = "fhn_height m" and ?w = "fhn_width m"
  let ?hdr = "[put_double (fhn_time m), put_double (fhn_a m), put_double (fhn_b m), put_double (fhn_c m),
               put_double (fhn_d m), put_double (fhn_du m), put_double (fhn_dv m)]"
  let ?U = "map (map put_double) (fhn_u m)" and ?V = "map (map put_double) (fhn_v m)"
  have gu: "is_grid ?h ?w (fhn_u m)" and gv: "is_grid ?h ?w (fhn_v m)"
    using wm by (simp_all add: fhn_wf_def)
  have fu: "is_grid ?h ?w (fhn_u f)" and fv: "is_grid ?h ?w (fhn_v f)"
    using wf d by (simp_all add: fhn_wf_def)
  have fl: "file = IntTok (int (fhn_width f)) # IntTok (int (fhn_height f)) # ?hdr @ (concat ?U @ concat ?V)"
    using sv saveState_output[OF wm] d by simp
  have rows: "\<forall>ts\<in>set ?U. length ts = ?w \<and> (\<forall>t\<in>set ts. t \<noteq> BadTok)"
    "\<forall>ts\<in>set ?V. length ts = ?w \<and> (\<forall>t\<in>set ts. t \<noteq> BadTok)"
    using gu gv by (auto simp: is_grid_def list_all_iff put_double_num)
  have lens: "0 + length ?U = ?h" "0 + length ?V = ?h"
    using gu gv by (simp_all add: is_grid_def)
  let ?s0 = "\<lparr>is_toks = concat ?U @ concat ?V, is_fail = False\<rparr>"
  from read_field_good[of ?s0 ?U "concat ?V" 0 ?h ?w "fhn_u f"] rows(1) lens(1) fu
  obtain g1 where g1: "read_field [0..<?h] ?w (?s0, fhn_u f) = Inr (True, ?s0\<lparr>is_toks := concat ?V\<rparr>, g1)"
    "is_grid ?h ?w g1"
    "\<forall>k. cell_at g1 k = (if 0 \<le> fst k \<and> fst k < ?h \<and> snd k < ?w
                           then tok_value (?U ! (fst k - 0) ! snd k) else cell_at (fhn_u f) k)"
    by auto
  let ?s1 = "\<lparr>is_toks = concat ?V, is_fail = False\<rparr>"
  have s1: "?s0\<lparr>is_toks := concat ?V\<rparr> = ?s1" by simp
  from read_field_good[of ?s1 ?V "[]" 0 ?h ?w "fhn_v f"] rows(2) lens(2) fv
  obtain g2 where g2: "read_field [0..<?h] ?w (?s1, fhn_v f) = Inr (True, ?s1\<lparr>is_toks := []\<rparr>, g2)"
    "is_grid ?h ?w g2"
    "\<forall>k. cell_at g2 k = (if 0 \<le> fst k \<and> fst k < ?h \<and> snd k < ?w
                           then tok_value (?V ! (fst k - 0) ! snd k) else cell_at (fhn_v f) k)"
    by auto
  have u: "g1 = map (map round_sig6) (fhn_u m)"
  proof (rule is_grid_eqI[OF g1(2) is_grid_map[OF gu]])
    fix y x assume b: "y < ?h" "x < ?w"
    then have "y < length (fhn_u m)" "x < length (fhn_u m ! y)"
      using gu by (auto simp: is_grid_def list_all_length)
    then show "g1 ! y ! x = map (map round_sig6) (fhn_u m) ! y ! x"
      using g1(3)[rule_format, of "(y, x)"] b by (simp add: cell_at_def tok_value_put_double)
  qed
  have v: "g2 = map (map round_sig6) (fhn_v m)"
  proof (rule is_grid_eqI[OF g2(2) is_grid_map[OF gv]])
    fix y x assume b: "y < ?h" "x < ?w"
    then have "y < length (fhn_v m)" "x < length (fhn_v m ! y)"
      using gv by (auto simp: is_grid_def list_all_length)
    then show "g2 ! y ! x = map (map round_sig6) (fhn_v m) ! y ! x"
      using g2(3)[rule_format, of "(y, x)"] b by (simp add: cell_at_def tok_value_put_double)
  qed
  have hd: "length ?hdr = 7" "\<forall>t\<in>set ?hdr. t \<noteq> BadTok" by (simp_all add: put_double_num)
  have "loadState f (Some file) =
     (case read_field [0..<fhn_height f] (fhn_width f) (?s0, fhn_u f) of
        Inl e \<Rightarrow> Inl e
      | Inr ru \<Rightarrow>
          if \<not> fst ru then Inr (False, (header_loaded f ?hdr)\<lparr>fhn_u := snd (snd ru)\<rparr>)
          else case read_field [0..<fhn_height f] (fhn_width f) (fst (snd ru), fhn_v f) of
                 Inl e \<Rightarrow> Inl e
               | Inr rv \<Rightarrow>
                   Inr (fst rv, (header_loaded f ?hdr)\<lparr>fhn_u := snd (snd ru), fhn_v := snd (snd rv)\<rparr>))"
    unfolding fl by (rule loadState_header[OF hd])
  then show ?thesis
    using g1(1) g2(1) u v
    by (simp add: d s1 header_loaded_def tok_value_put_double)
qed

lemma round_sig6_0: "round_sig6 0 = 0"
  by (simp add: round_sig6_def)

lemma round_sig6_1: "round_sig6 1 = 1"
  by (simp add: round_sig6_def round_half_even_def Let_def power_int_minus)

lemma round_sig6_2: "round_sig6 2 = 2"
proof -
  have "\<lfloor>log 10 2\<rfloor> = 0" by (simp add: floor_log_eq_powr_iff)
  then show ?thesis
    by (simp add: round_sig6_def round_half_even_def Let_def power_int_minus)
qed

lemma round_sig6_1234567: "round_sig6 1234567 = 1234570"
proof -
  have "\<lfloor>log 10 1234567\<rfloor> = 6" by (simp add: floor_log_eq_powr_iff)
  moreover have "\<lfloor>12345670 / 100 :: real\<rfloor> = 123456" by (simp add: floor_eq_iff)
  ultimately show ?thesis
    by (simp add: round_sig6_def round_half_even_def Let_def)
qed


lemma fhn_wf_FitzHughNagumo: "fhn_wf (FitzHughNagumo w h dt)"
  by (simp add: FitzHughNagumo_def fhn_wf_def is_grid_new_grid)

lemma map_map_id:
  assumes "\<forall>r\<in>set g. \<forall>x\<in>set r. f x = x"
  shows "map (map f) g = g"
  using assms by (simp add: map_idI)

text \<open>
  A load that stops in the field data. The cells are numbered in the order the loops
  visit them, \<open>y * width + x\<close>; the lemmas say which cells of the live field hold a
  value of the file, what the cell of the failed extraction holds, and that every other
  cell is as before.
\<close>

lemma flat_index_less:
  fixes y x w h :: nat
  assumes "y < h" and "x < w"
  shows "y * w + x < h * w"
proof -
  have "y * w + x < Suc y * w" using assms(2) by simp
  also have "\<dots> \<le> h * w" using assms(1) by (intro mult_le_mono1) simp
  finally show ?thesis .
qed

lemma extract_double_end:
  assumes "\<not> is_fail s" and "is_toks s = bad" and "bad = [] \<or> (\<exists>r. bad = BadTok # r)"
  shows "extract_double s old = (if bad = [] then old else 0, s\<lparr>is_fail := True\<rparr>)"
  using assms by (auto simp: extract_double_def)

lemma read_field_row_bad_cells:
  assumes "\<not> is_fail s" and "is_toks s = ts @ bad" and "i + length ts < w"
    and "\<forall>t\<in>set ts. t \<noteq> BadTok" and "bad = [] \<or> (\<exists>r. bad = BadTok # r)"
    and "is_grid h w g" and "y < h"
  shows "\<exists>s' g'. read_field_row [i..<w] y (s, g) = Inr (False, s', g') \<and> is_grid h w g' \<and>
           (\<forall>k. cell_at g' k =
              (if fst k = y \<and> i \<le> snd k \<and> snd k < i + length ts then tok_value (ts ! (snd k - i))
               else if k = (y, i + length ts) \<and> bad \<noteq> [] then 0 else cell_at g k))"
  using assms
proof (induction ts arbitrary: i s g)
  case Nil
  have iw: "i < w" using Nil.prems(3) by simp
  have up: "[i..<w] = i # [Suc i..<w]" using iw by (simp add: upt_conv_Cons)
  have ing: "in_grid g y i" by (rule is_grid_in_grid[OF Nil.prems(6,7) iw])
  let ?v = "if bad = [] then g ! y ! i else 0"
  let ?g1 = "grid_set g y i ?v"
  have ex: "extract_double s (g ! y ! i) = (?v, s\<lparr>is_fail := True\<rparr>)"
    by (rule extract_double_end) (use Nil.prems in auto)
  have r: "read_field_row [i..<w] y (s, g) = Inr (False, s\<lparr>is_fail := True\<rparr>, ?g1)"
    unfolding up using ing ex by (simp add: Let_def)
  have gg: "is_grid h w ?g1" by (rule is_grid_grid_set[OF Nil.prems(6)])
  have c: "cell_at ?g1 k = (if k = (y, i) \<and> bad \<noteq> [] then 0 else cell_at g k)" for k
  proof (cases "k = (y, i)")
    case True
    have "cell_at ?g1 (y, i) = ?v" unfolding cell_at_def fst_conv snd_conv by (rule grid_set_same[OF ing])
    then show ?thesis using True by (simp add: cell_at_def)
  next
    case False
    then show ?thesis by (simp add: cell_at_grid_set_other)
  qed
  show ?case
    using r gg c by simp
next
  case (Cons t ts)
  have iw: "i < w" using Cons.prems(3) by simp
  have up: "[i..<w] = i # [Suc i..<w]" using iw by (simp add: upt_conv_Cons)
  have ing: "in_grid g y i" by (rule is_grid_in_grid[OF Cons.prems(6,7) iw])
  let ?s1 = "s\<lparr>is_toks := ts @ bad\<rparr>"
  let ?g1 = "grid_set g y i (tok_value t)"
  have ex: "extract_double s (g ! y ! i) = (tok_value t, ?s1)"
    by (rule extract_double_num) (use Cons.prems in auto)
  have nf: "\<not> is_fail ?s1" using Cons.prems(1) by simp
  have step: "read_field_row [i..<w] y (s, g) = read_field_row [Suc i..<w] y (?s1, ?g1)"
    unfolding up using ing ex nf by (simp add: Let_def)
  from Cons.IH[of ?s1 "Suc i" ?g1] nf Cons.prems is_grid_grid_set[OF Cons.prems(6)]
  obtain s' g' where g': "read_field_row [Suc i..<w] y (?s1, ?g1) = Inr (False, s', g')"
    "is_grid h w g'"
    "\<forall>k. cell_at g' k =
       (if fst k = y \<and> Suc i \<le> snd k \<and> snd k < Suc i + length ts then tok_value (ts ! (snd k - Suc i))
        else if k = (y, Suc i + length ts) \<and> bad \<noteq> [] then 0 else cell_at ?g1 k)"
    by auto
  have "cell_at g' k =
       (if fst k = y \<and> i \<le> snd k \<and> snd k < i + length (t # ts) then tok_value ((t # ts) ! (snd k - i))
        else if k = (y, i + length (t # ts)) \<and> bad \<noteq> [] then 0 else cell_at g k)" for k
  proof (cases "k = (y, i)")
    case True
    then show ?thesis using g'(3)[rule_format, of k] ing by (simp add: cell_at_grid_set)
  next
    case False
    then have "fst k = y \<and> i \<le> snd k \<longleftrightarrow> fst k = y \<and> Suc i \<le> snd k"
      by (cases k) auto
    moreover have "(t # ts) ! (snd k - i) = ts ! (snd k - Suc i)" if "Suc i \<le> snd k"
      using that by (simp add: Suc_diff_le)
    ultimately show ?thesis
      using g'(3)[rule_format, of k] False by (auto simp: cell_at_grid_set_other)
  qed
  with g'(1,2) step show ?case by simp
qed

lemma read_field_good_cells:
  assumes "\<not> is_fail s" and "is_toks s = ts @ rest" and "length ts = (h - j) * w"
    and "\<forall>t\<in>set ts. t \<noteq> BadTok" and "is_grid h w g"
  shows "\<exists>g'. read_field [j..<h] w (s, g) = Inr (True, s\<lparr>is_toks := rest\<rparr>, g') \<and> is_grid h w g' \<and>
           (\<forall>y x. x < w \<longrightarrow> cell_at g' (y, x) =
              (if j \<le> y \<and> y < h then tok_value (ts ! ((y - j) * w + x)) else cell_at g (y, x)))"
  using assms
proof (induction "h - j" arbitrary: j s g ts)
  case 0
  then have "s\<lparr>is_toks := rest\<rparr> = s" by simp
  with 0 show ?case by auto
next
  case (Suc n)
  have jh: "j < h" using Suc.hyps(2) by simp
  have up: "[j..<h] = j # [Suc j..<h]" using jh by (simp add: upt_conv_Cons)
  have hj: "h - j = Suc (h - Suc j)" using jh by simp
  let ?t1 = "take w ts" and ?t2 = "drop w ts"
  let ?s1 = "s\<lparr>is_toks := ?t2 @ rest\<rparr>"
  have wl: "w \<le> length ts" using Suc.prems(3) hj by simp
  have sp: "is_toks s = ?t1 @ (?t2 @ rest)" using Suc.prems(2) by simp
  have l1: "0 + length ?t1 = w" using wl by simp
  have n1: "\<forall>t\<in>set ?t1. t \<noteq> BadTok" using Suc.prems(4) by (auto dest: in_set_takeD)
  from read_field_row_good[OF Suc.prems(1) sp l1 n1 Suc.prems(5) jh]
  obtain g1 where g1: "read_field_row [0..<w] j (s, g) = Inr (True, ?s1, g1)" "is_grid h w g1"
    "\<forall>k. cell_at g1 k = (if fst k = j \<and> 0 \<le> snd k \<and> snd k < w
                           then tok_value (?t1 ! (snd k - 0)) else cell_at g k)"
    by blast
  have nf: "\<not> is_fail ?s1" using Suc.prems(1) by simp
  have n2: "\<forall>t\<in>set ?t2. t \<noteq> BadTok" using Suc.prems(4) by (auto dest: in_set_dropD)
  have l2: "length ?t2 = (h - Suc j) * w" using Suc.prems(3) hj by simp
  have hn: "n = h - Suc j" using Suc.hyps(2) by simp
  from Suc.hyps(1)[OF hn nf _ l2 n2 g1(2)]
  obtain g' where g': "read_field [Suc j..<h] w (?s1, g1) = Inr (True, ?s1\<lparr>is_toks := rest\<rparr>, g')"
    "is_grid h w g'"
    "\<forall>y x. x < w \<longrightarrow> cell_at g' (y, x) =
       (if Suc j \<le> y \<and> y < h then tok_value (?t2 ! ((y - Suc j) * w + x)) else cell_at g1 (y, x))"
    by auto
  have "cell_at g' (y, x) =
       (if j \<le> y \<and> y < h then tok_value (ts ! ((y - j) * w + x)) else cell_at g (y, x))"
    if x: "x < w" for y x
  proof (cases "y = j")
    case True
    then show ?thesis
      using g'(3)[rule_format, OF x, of y] g1(3)[rule_format, of "(y, x)"] jh x by simp
  next
    case False
    show ?thesis
    proof (cases "Suc j \<le> y \<and> y < h")
      case True
      then have "y - j = Suc (y - Suc j)" by arith
      then have e: "(y - j) * w + x = w + ((y - Suc j) * w + x)" by simp
      have "ts ! ((y - j) * w + x) = drop w ts ! ((y - Suc j) * w + x)"
        unfolding e using wl by simp
      moreover from True have "j \<le> y \<and> y < h" by simp
      ultimately show ?thesis
        using g'(3)[rule_format, OF x, of y] True by simp
    next
      case F: False
      with False have "\<not> (j \<le> y \<and> y < h)" by auto
      then show ?thesis
        using g'(3)[rule_format, OF x, of y] g1(3)[rule_format, of "(y, x)"] F False by auto
    qed
  qed
  with g1(1) g'(1,2) show ?case unfolding up by simp
qed

lemma read_field_bad_cells:
  assumes "\<not> is_fail s" and "is_toks s = ts @ bad" and "length ts < (h - j) * w"
    and "\<forall>t\<in>set ts. t \<noteq> BadTok" and "bad = [] \<or> (\<exists>r. bad = BadTok # r)"
    and "is_grid h w g"
  shows "\<exists>s' g'. read_field [j..<h] w (s, g) = Inr (False, s', g') \<and> is_grid h w g' \<and>
           (\<forall>y x. x < w \<longrightarrow> cell_at g' (y, x) =
              (if j \<le> y \<and> (y - j) * w + x < length ts then tok_value (ts ! ((y - j) * w + x))
               else if j \<le> y \<and> (y - j) * w + x = length ts \<and> bad \<noteq> [] then 0
               else cell_at g (y, x)))"
  using assms
proof (induction "h - j" arbitrary: j s g ts)
  case 0
  then show ?case by simp
next
  case (Suc n)
  have jh: "j < h" using Suc.hyps(2) by simp
  have up: "[j..<h] = j # [Suc j..<h]" using jh by (simp add: upt_conv_Cons)
  have far: "w \<le> (y - j) * w + x" if "Suc j \<le> y" for y x
  proof -
    from that have "y - j = Suc (y - Suc j)" by arith
    then show ?thesis by simp
  qed
  show ?case
  proof (cases "length ts < w")
    case True
    from read_field_row_bad_cells[of s ts bad 0 w h g j] Suc.prems True jh
    obtain s' g' where r: "read_field_row [0..<w] j (s, g) = Inr (False, s', g')" "is_grid h w g'"
      "\<forall>k. cell_at g' k =
         (if fst k = j \<and> 0 \<le> snd k \<and> snd k < 0 + length ts then tok_value (ts ! (snd k - 0))
          else if k = (j, 0 + length ts) \<and> bad \<noteq> [] then 0 else cell_at g k)"
      by auto
    have "cell_at g' (y, x) =
         (if j \<le> y \<and> (y - j) * w + x < length ts then tok_value (ts ! ((y - j) * w + x))
          else if j \<le> y \<and> (y - j) * w + x = length ts \<and> bad \<noteq> [] then 0
          else cell_at g (y, x))" for y x
    proof (cases "y = j")
      case True
      then show ?thesis using r(3)[rule_format, of "(y, x)"] by simp
    next
      case False
      have "\<not> (j \<le> y \<and> (y - j) * w + x \<le> length ts)"
      proof
        assume a: "j \<le> y \<and> (y - j) * w + x \<le> length ts"
        with False have "Suc j \<le> y" by simp
        from far[OF this, of x] a True show False by simp
      qed
      then have "\<not> (j \<le> y \<and> (y - j) * w + x < length ts)"
        and "\<not> (j \<le> y \<and> (y - j) * w + x = length ts \<and> bad \<noteq> [])"
        by auto
      then show ?thesis using r(3)[rule_format, of "(y, x)"] False by auto
    qed
    with r(1,2) show ?thesis unfolding up by simp
  next
    case False
    let ?t1 = "take w ts" and ?t2 = "drop w ts"
    let ?s1 = "s\<lparr>is_toks := ?t2 @ bad\<rparr>"
    have wl: "w \<le> length ts" using False by simp
    have sp: "is_toks s = ?t1 @ (?t2 @ bad)" using Suc.prems(2) by simp
    have l1: "0 + length ?t1 = w" using False by simp
    have n1: "\<forall>t\<in>set ?t1. t \<noteq> BadTok" using Suc.prems(4) by (auto dest: in_set_takeD)
    from read_field_row_good[OF Suc.prems(1) sp l1 n1 Suc.prems(6) jh]
    obtain g1 where g1: "read_field_row [0..<w] j (s, g) = Inr (True, ?s1, g1)" "is_grid h w g1"
      "\<forall>k. cell_at g1 k = (if fst k = j \<and> 0 \<le> snd k \<and> snd k < w
                             then tok_value (?t1 ! (snd k - 0)) else cell_at g k)"
      by blast
    have nf: "\<not> is_fail ?s1" using Suc.prems(1) by simp
    have n2: "\<forall>t\<in>set ?t2. t \<noteq> BadTok" using Suc.prems(4) by (auto dest: in_set_dropD)
    have "(h - j) * w = w + (h - Suc j) * w"
      using jh by (metis Suc.hyps(2) Suc_diff_Suc diff_Suc_Suc mult_Suc diff_zero)
    then have l2: "length ?t2 < (h - Suc j) * w" using Suc.prems(3) False by simp
    have hn: "n = h - Suc j" using Suc.hyps(2) by simp
    from Suc.hyps(1)[OF hn nf _ l2 n2 Suc.prems(5) g1(2)]
    obtain s' g' where g': "read_field [Suc j..<h] w (?s1, g1) = Inr (False, s', g')"
      "is_grid h w g'"
      "\<forall>y x. x < w \<longrightarrow> cell_at g' (y, x) =
         (if Suc j \<le> y \<and> (y - Suc j) * w + x < length ?t2
          then tok_value (?t2 ! ((y - Suc j) * w + x))
          else if Suc j \<le> y \<and> (y - Suc j) * w + x = length ?t2 \<and> bad \<noteq> [] then 0
          else cell_at g1 (y, x))"
      by auto
    have "cell_at g' (y, x) =
         (if j \<le> y \<and> (y - j) * w + x < length ts then tok_value (ts ! ((y - j) * w + x))
          else if j \<le> y \<and> (y - j) * w + x = length ts \<and> bad \<noteq> [] then 0
          else cell_at g (y, x))" if x: "x < w" for y x
    proof (cases "y = j")
      case True
      then show ?thesis
        using g'(3)[rule_format, OF x, of y] g1(3)[rule_format, of "(y, x)"] x wl by simp
    next
      case yj: False
      show ?thesis
      proof (cases "Suc j \<le> y")
        case True
        then have "y - j = Suc (y - Suc j)" by arith
        then have e: "(y - j) * w + x = w + ((y - Suc j) * w + x)" by simp
        have a: "w + k < length ts \<longleftrightarrow> k < length ts - w"
          and b: "w + k = length ts \<longleftrightarrow> k = length ts - w" for k
          using wl by auto
        from True have jy: "j \<le> y" by simp
        show ?thesis
          using g'(3)[rule_format, OF x, of y] g1(3)[rule_format, of "(y, x)"] True jy yj wl
          unfolding e by (simp add: a b)
      next
        case False
        with yj have "\<not> j \<le> y" by simp
        then show ?thesis
          using g'(3)[rule_format, OF x, of y] g1(3)[rule_format, of "(y, x)"] False yj by auto
      qed
    qed
    with g1(1) g'(1,2) show ?thesis unfolding up by simp
  qed
qed

lemma loadState_field_failure:
  assumes wf: "fhn_wf m" and hd: "length hdr = 7" "\<forall>t\<in>set hdr. t \<noteq> BadTok"
    and ts: "\<forall>t\<in>set ts. t \<noteq> BadTok" "length ts < 2 * fhn_width m * fhn_height m"
    and bad: "bad = [] \<or> (\<exists>r. bad = BadTok # r)"
  shows "\<exists>gu gv. loadState m (Some (IntTok (int (fhn_width m)) # IntTok (int (fhn_height m)) # hdr @ ts @ bad))
           = Inr (False, (header_loaded m hdr)\<lparr>fhn_u := gu, fhn_v := gv\<rparr>) \<and>
           is_grid (fhn_height m) (fhn_width m) gu \<and> is_grid (fhn_height m) (fhn_width m) gv \<and>
           (\<forall>y<fhn_height m. \<forall>x<fhn_width m.
              gu ! y ! x =
                (if y * fhn_width m + x < length ts then tok_value (ts ! (y * fhn_width m + x))
                 else if y * fhn_width m + x = length ts \<and> bad \<noteq> [] then 0
                 else fhn_u m ! y ! x) \<and>
              gv ! y ! x =
                (if fhn_height m * fhn_width m + (y * fhn_width m + x) < length ts
                 then tok_value (ts ! (fhn_height m * fhn_width m + (y * fhn_width m + x)))
                 else if fhn_height m * fhn_width m + (y * fhn_width m + x) = length ts \<and> bad \<noteq> []
                 then 0
                 else fhn_v m ! y ! x))"
proof -
  let ?h = "fhn_height m" and ?w = "fhn_width m"
  let ?n = "?h * ?w"
  let ?s0 = "\<lparr>is_toks = ts @ bad, is_fail = False\<rparr>"
  have gu: "is_grid ?h ?w (fhn_u m)" and gv: "is_grid ?h ?w (fhn_v m)"
    using wf by (simp_all add: fhn_wf_def)
  note ld = loadState_header[OF hd, of m "ts @ bad"]
  have hv: "(header_loaded m hdr)\<lparr>fhn_u := g\<rparr> = (header_loaded m hdr)\<lparr>fhn_u := g, fhn_v := fhn_v m\<rparr>" for g
    by (simp add: header_loaded_def)
  show ?thesis
  proof (cases "length ts < ?n")
    case True
    from read_field_bad_cells[of ?s0 ts bad ?h 0 ?w "fhn_u m"] ts(1) bad True gu
    obtain s' g' where r: "read_field [0..<?h] ?w (?s0, fhn_u m) = Inr (False, s', g')"
      "is_grid ?h ?w g'"
      "\<forall>y x. x < ?w \<longrightarrow> cell_at g' (y, x) =
         (if 0 \<le> y \<and> (y - 0) * ?w + x < length ts then tok_value (ts ! ((y - 0) * ?w + x))
          else if 0 \<le> y \<and> (y - 0) * ?w + x = length ts \<and> bad \<noteq> [] then 0
          else cell_at (fhn_u m) (y, x))"
      by auto
    have cu: "g' ! y ! x =
         (if y * ?w + x < length ts then tok_value (ts ! (y * ?w + x))
          else if y * ?w + x = length ts \<and> bad \<noteq> [] then 0 else fhn_u m ! y ! x)"
      if "x < ?w" for y x
      using r(3)[rule_format, OF that, of y] by (simp add: cell_at_def)
    have cv: "fhn_v m ! y ! x =
         (if ?n + (y * ?w + x) < length ts then tok_value (ts ! (?n + (y * ?w + x)))
          else if ?n + (y * ?w + x) = length ts \<and> bad \<noteq> [] then 0 else fhn_v m ! y ! x)" for y x
      using True by simp
    have "loadState m (Some (IntTok (int ?w) # IntTok (int ?h) # hdr @ ts @ bad))
            = Inr (False, (header_loaded m hdr)\<lparr>fhn_u := g', fhn_v := fhn_v m\<rparr>)"
      using ld r(1) hv[of g'] by simp
    with r(2) gv cu cv show ?thesis
      by (intro exI[of _ g'] exI[of _ "fhn_v m"]) simp
  next
    case False
    let ?t1 = "take ?n ts" and ?t2 = "drop ?n ts"
    let ?s1 = "\<lparr>is_toks = ?t2 @ bad, is_fail = False\<rparr>"
    have nl: "?n \<le> length ts" using False by simp
    have sp: "is_toks ?s0 = ?t1 @ (?t2 @ bad)" by simp
    have l1: "length ?t1 = (?h - 0) * ?w" using False by simp
    have n1: "\<forall>t\<in>set ?t1. t \<noteq> BadTok" using ts(1) by (auto dest: in_set_takeD)
    from read_field_good_cells[OF _ sp l1 n1 gu]
    obtain g1 where g1: "read_field [0..<?h] ?w (?s0, fhn_u m) = Inr (True, ?s1, g1)"
      "is_grid ?h ?w g1"
      "\<forall>y x. x < ?w \<longrightarrow> cell_at g1 (y, x) =
         (if 0 \<le> y \<and> y < ?h then tok_value (?t1 ! ((y - 0) * ?w + x)) else cell_at (fhn_u m) (y, x))"
      by auto
    have n2: "\<forall>t\<in>set ?t2. t \<noteq> BadTok" using ts(1) by (auto dest: in_set_dropD)
    have l2: "length ?t2 < (?h - 0) * ?w" using ts(2) False by (simp add: algebra_simps)
    from read_field_bad_cells[of ?s1 ?t2 bad ?h 0 ?w "fhn_v m"] n2 l2 bad gv
    obtain s' g2 where g2: "read_field [0..<?h] ?w (?s1, fhn_v m) = Inr (False, s', g2)"
      "is_grid ?h ?w g2"
      "\<forall>y x. x < ?w \<longrightarrow> cell_at g2 (y, x) =
         (if 0 \<le> y \<and> (y - 0) * ?w + x < length ?t2 then tok_value (?t2 ! ((y - 0) * ?w + x))
          else if 0 \<le> y \<and> (y - 0) * ?w + x = length ?t2 \<and> bad \<noteq> [] then 0
          else cell_at (fhn_v m) (y, x))"
      by auto
    have cu: "g1 ! y ! x =
         (if y * ?w + x < length ts then tok_value (ts ! (y * ?w + x))
          else if y * ?w + x = length ts \<and> bad \<noteq> [] then 0 else fhn_u m ! y ! x)"
      if "y < ?h" "x < ?w" for y x
    proof -
      have k: "y * ?w + x < ?n" by (rule flat_index_less[OF that])
      with nl have "y * ?w + x < length ts" by simp
      with k show ?thesis
        using g1(3)[rule_format, OF that(2), of y] that(1) by (simp add: cell_at_def)
    qed
    have cv: "g2 ! y ! x =
         (if ?n + (y * ?w + x) < length ts then tok_value (ts ! (?n + (y * ?w + x)))
          else if ?n + (y * ?w + x) = length ts \<and> bad \<noteq> [] then 0 else fhn_v m ! y ! x)"
      if "x < ?w" for y x
    proof -
      have a: "?n + k < length ts \<longleftrightarrow> k < length ts - ?n"
        and b: "?n + k = length ts \<longleftrightarrow> k = length ts - ?n" for k
        using nl by auto
      show ?thesis
        using g2(3)[rule_format, OF that, of y] nl by (simp add: cell_at_def a b)
    qed
    have "loadState m (Some (IntTok (int ?w) # IntTok (int ?h) # hdr @ ts @ bad))
            = Inr (False, (header_loaded m hdr)\<lparr>fhn_u := g1, fhn_v := g2\<rparr>)"
      using ld g1(1) g2(1) by simp
    with g1(2) g2(2) cu cv show ?thesis
      by (intro exI[of _ g1] exI[of _ g2]) simp
  qed
qed

lemma fhn_wf_example: "fhn_wf fhn_example"
  by code_simp

section \<open>Claims\<close>

text \<open>
  C6. For the Simplified Excitable model with parameters \<open>(a, b, c)\<close>, one step updates
  every cell by forward Euler: \<open>u' = u + dt * (diffusion_u + u - u\<^sup>3/3 - v + stimulus)\<close> and
  \<open>v' = v + dt * (diffusion_v + (u + a - b * v) / c)\<close>, where \<open>diffusion_u\<close> and
  \<open>diffusion_v\<close> are the terms the diffusion operator computed for the cell and every
  read is from the buffer as it was before the step.
\<close>

theorem fhn_step_forward_euler:
  assumes "fhn_wf m"
  shows "\<exists>m' du_dt dv_dt.
      (if fhn_du m > 0 then fhn_applyDiffusion m (fhn_u m) (fhn_du m) (new_grid (fhn_height m) (fhn_width m) 0)
       else Inr (new_grid (fhn_height m) (fhn_width m) 0)) = Inr du_dt \<and>
      (if fhn_dv m > 0 then fhn_applyDiffusion m (fhn_v m) (fhn_dv m) (new_grid (fhn_height m) (fhn_width m) 0)
       else Inr (new_grid (fhn_height m) (fhn_width m) 0)) = Inr dv_dt \<and>
      fhn_step m = Inr m' \<and>
      (\<forall>y x. y < fhn_height m \<longrightarrow> x < fhn_width m \<longrightarrow>
         fhn_u m' ! y ! x =
           fhn_u m ! y ! x + fhn_dt m *
             (du_dt ! y ! x + fhn_u m ! y ! x - (fhn_u m ! y ! x) ^ 3 / 3 - fhn_v m ! y ! x
              + fhn_stimulus m ! y ! x) \<and>
         fhn_v m' ! y ! x =
           fhn_v m ! y ! x + fhn_dt m *
             (dv_dt ! y ! x + (fhn_u m ! y ! x + fhn_a m - fhn_b m * fhn_v m ! y ! x) / fhn_c m))"
proof -
  from fhn_step_closed[OF assms] obtain m' du_dt dv_dt where
    d: "(if fhn_du m > 0 then fhn_applyDiffusion m (fhn_u m) (fhn_du m) (new_grid (fhn_height m) (fhn_width m) 0)
         else Inr (new_grid (fhn_height m) (fhn_width m) 0)) = Inr du_dt"
       "(if fhn_dv m > 0 then fhn_applyDiffusion m (fhn_v m) (fhn_dv m) (new_grid (fhn_height m) (fhn_width m) 0)
         else Inr (new_grid (fhn_height m) (fhn_width m) 0)) = Inr dv_dt"
    and st: "fhn_step m = Inr m'"
    and c: "\<forall>y x. y < fhn_height m \<longrightarrow> x < fhn_width m \<longrightarrow>
         fhn_u m' ! y ! x = fhn_u m ! y ! x + fhn_dt m *
            (du_dt ! y ! x + reactionU (fhn_u m ! y ! x) (fhn_v m ! y ! x) (fhn_stimulus m ! y ! x)) \<and>
         fhn_v m' ! y ! x = fhn_v m ! y ! x + fhn_dt m *
            (dv_dt ! y ! x + reactionV m (fhn_u m ! y ! x) (fhn_v m ! y ! x))"
    by blast
  have "fhn_u m' ! y ! x =
           fhn_u m ! y ! x + fhn_dt m *
             (du_dt ! y ! x + fhn_u m ! y ! x - (fhn_u m ! y ! x) ^ 3 / 3 - fhn_v m ! y ! x
              + fhn_stimulus m ! y ! x) \<and>
         fhn_v m' ! y ! x =
           fhn_v m ! y ! x + fhn_dt m *
             (dv_dt ! y ! x + (fhn_u m ! y ! x + fhn_a m - fhn_b m * fhn_v m ! y ! x) / fhn_c m)"
    if "y < fhn_height m" "x < fhn_width m" for y x
    using c[rule_format, OF that]
    by (simp add: reactionU_def reactionV_def power3_eq_cube algebra_simps)
  with d st show ?thesis by blast
qed

theorem fhn_step_forward_euler_witness:
  "fhn_wf fhn_example \<and>
   (\<exists>m'. fhn_step fhn_example = Inr m' \<and> fhn_u m' ! 1 ! 1 = 1 + 1 / 2 * (- 2 / 5 + 1 - 1 / 3 - 0 + 2)
        \<and> fhn_v m' ! 1 ! 1 = 0 + 1 / 2 * (0 + (1 + 1 / 10 - 1 / 2 * 0) / 1))"
proof -
  from fhn_step_forward_euler[OF fhn_wf_example] obtain m' du_dt dv_dt where
    d: "(if fhn_du fhn_example > 0
         then fhn_applyDiffusion fhn_example (fhn_u fhn_example) (fhn_du fhn_example)
                (new_grid (fhn_height fhn_example) (fhn_width fhn_example) 0)
         else Inr (new_grid (fhn_height fhn_example) (fhn_width fhn_example) 0)) = Inr du_dt"
       "(if fhn_dv fhn_example > 0
         then fhn_applyDiffusion fhn_example (fhn_v fhn_example) (fhn_dv fhn_example)
                (new_grid (fhn_height fhn_example) (fhn_width fhn_example) 0)
         else Inr (new_grid (fhn_height fhn_example) (fhn_width fhn_example) 0)) = Inr dv_dt"
    and st: "fhn_step fhn_example = Inr m'"
    and c: "\<forall>y x. y < fhn_height fhn_example \<longrightarrow> x < fhn_width fhn_example \<longrightarrow>
         fhn_u m' ! y ! x =
           fhn_u fhn_example ! y ! x + fhn_dt fhn_example *
             (du_dt ! y ! x + fhn_u fhn_example ! y ! x - (fhn_u fhn_example ! y ! x) ^ 3 / 3
              - fhn_v fhn_example ! y ! x + fhn_stimulus fhn_example ! y ! x) \<and>
         fhn_v m' ! y ! x =
           fhn_v fhn_example ! y ! x + fhn_dt fhn_example *
             (dv_dt ! y ! x + (fhn_u fhn_example ! y ! x + fhn_a fhn_example
                - fhn_b fhn_example * fhn_v fhn_example ! y ! x) / fhn_c fhn_example)"
    by blast
  have "(if fhn_du fhn_example > 0
         then fhn_applyDiffusion fhn_example (fhn_u fhn_example) (fhn_du fhn_example)
                (new_grid (fhn_height fhn_example) (fhn_width fhn_example) 0)
         else Inr (new_grid (fhn_height fhn_example) (fhn_width fhn_example) 0))
        = Inr [[0, 0, 0], [0, - 2 / 5, 0], [0, 0, 0]]"
    by code_simp
  with d(1) have du: "du_dt ! 1 ! 1 = - 2 / 5" by auto
  have "(if fhn_dv fhn_example > 0
         then fhn_applyDiffusion fhn_example (fhn_v fhn_example) (fhn_dv fhn_example)
                (new_grid (fhn_height fhn_example) (fhn_width fhn_example) 0)
         else Inr (new_grid (fhn_height fhn_example) (fhn_width fhn_example) 0))
        = Inr [[0, 0, 0], [0, 0, 0], [0, 0, 0]]"
    by code_simp
  with d(2) have dv: "dv_dt ! 1 ! 1 = 0" by auto
  have "1 < fhn_height fhn_example" "1 < fhn_width fhn_example"
    by (simp_all add: fhn_example_def FitzHughNagumo_def)
  from c[rule_format, OF this] du dv
  have "fhn_u m' ! 1 ! 1 = 1 + 1 / 2 * (- 2 / 5 + 1 - 1 / 3 - 0 + 2)
        \<and> fhn_v m' ! 1 ! 1 = 0 + 1 / 2 * (0 + (1 + 1 / 10 - 1 / 2 * 0) / 1)"
    by (simp add: fhn_example_def FitzHughNagumo_def new_grid_def eval_nat_numeral)
  with st fhn_wf_example show ?thesis by blast
qed

text \<open>
  C4. \<^verbatim>\<open>applyDiffusion\<close> writes \<open>coeff * (N + S + E + W - 4 * center)\<close> into the result at
  every interior cell (\<open>1 \<le> x \<le> W - 2\<close>, \<open>1 \<le> y \<le> H - 2\<close>) not flagged in the tissue
  mask, writes zero at flagged interior cells and leaves the outermost ring of the result
  as it was. The Simplified Excitable model has no mask and takes the coefficient as an
  argument; the ionic models use the conductivity. With \<open>W < 3\<close> or \<open>H < 3\<close> the result
  is unchanged. A zero coefficient gives a zero diffusion contribution everywhere: the
  Simplified Excitable step calls the operator only for a positive coefficient, and
  either operator with a zero coefficient maps a zero result grid to itself.
\<close>

theorem applyDiffusion_stencil:
  assumes "is_grid h w grid" and "is_grid h w result"
    and "fhn_height m = h" and "fhn_width m = w"
    and "ce_height c = h" and "ce_width c = w" and "mask_covers h w (ce_mi_region c)"
  shows "\<exists>r rc. fhn_applyDiffusion m grid coeff result = Inr r \<and>
           ce_applyDiffusion c grid result = Inr rc \<and>
           (\<forall>y x. y < h \<longrightarrow> x < w \<longrightarrow>
              r ! y ! x =
                (if 1 \<le> y \<and> y + 2 \<le> h \<and> 1 \<le> x \<and> x + 2 \<le> w
                 then coeff * (grid ! (y - 1) ! x + grid ! (y + 1) ! x + grid ! y ! (x - 1)
                               + grid ! y ! (x + 1) - 4 * grid ! y ! x)
                 else result ! y ! x) \<and>
              rc ! y ! x =
                (if 1 \<le> y \<and> y + 2 \<le> h \<and> 1 \<le> x \<and> x + 2 \<le> w
                 then if ce_mi_region c ! y ! x then 0
                      else ce_conductivity c * (grid ! (y - 1) ! x + grid ! (y + 1) ! x
                             + grid ! y ! (x - 1) + grid ! y ! (x + 1) - 4 * grid ! y ! x)
                 else result ! y ! x)) \<and>
           is_grid h w r \<and> is_grid h w rc \<and>
           (w < 3 \<or> h < 3 \<longrightarrow> r = result \<and> rc = result) \<and>
           (ce_conductivity c = 0 \<longrightarrow> result = new_grid h w 0 \<longrightarrow> rc = new_grid h w 0) \<and>
           (coeff = 0 \<longrightarrow> result = new_grid h w 0 \<longrightarrow> r = new_grid h w 0) \<and>
           (coeff = 0 \<longrightarrow>
              (if coeff > 0 then fhn_applyDiffusion m grid coeff (new_grid h w 0)
               else Inr (new_grid h w 0)) = Inr (new_grid h w 0))"
proof -
  from fhn_applyDiffusion_cells[OF assms(1,2,3,4), of coeff]
  obtain r where r: "fhn_applyDiffusion m grid coeff result = Inr r" "is_grid h w r"
    "\<forall>y x. r ! y ! x = (if interior h w y x then coeff * laplacian5 grid y x else result ! y ! x)"
    by blast
  from ce_applyDiffusion_cells[OF assms(1,2,5,6,7)]
  obtain rc where rc: "ce_applyDiffusion c grid result = Inr rc" "is_grid h w rc"
    "\<forall>y x. rc ! y ! x = (if interior h w y x then ce_diffusion_value c grid y x else result ! y ! x)"
    by blast
  have cells: "\<forall>y x. y < h \<longrightarrow> x < w \<longrightarrow>
              r ! y ! x =
                (if 1 \<le> y \<and> y + 2 \<le> h \<and> 1 \<le> x \<and> x + 2 \<le> w
                 then coeff * (grid ! (y - 1) ! x + grid ! (y + 1) ! x + grid ! y ! (x - 1)
                               + grid ! y ! (x + 1) - 4 * grid ! y ! x)
                 else result ! y ! x) \<and>
              rc ! y ! x =
                (if 1 \<le> y \<and> y + 2 \<le> h \<and> 1 \<le> x \<and> x + 2 \<le> w
                 then if ce_mi_region c ! y ! x then 0
                      else ce_conductivity c * (grid ! (y - 1) ! x + grid ! (y + 1) ! x
                             + grid ! y ! (x - 1) + grid ! y ! (x + 1) - 4 * grid ! y ! x)
                 else result ! y ! x)"
    using r(3) rc(3) by (simp add: interior_iff laplacian5_def ce_diffusion_value_def)
  have small: "r = result \<and> rc = result" if "w < 3 \<or> h < 3"
  proof
    show "r = result"
      by (rule is_grid_eqI[OF r(2) assms(2)]) (use r(3) interior_small[OF that] in simp)
    show "rc = result"
      by (rule is_grid_eqI[OF rc(2) assms(2)]) (use rc(3) interior_small[OF that] in simp)
  qed
  have zero: "rc = new_grid h w 0" if "ce_conductivity c = 0" "result = new_grid h w 0"
    by (rule is_grid_eqI[OF rc(2) is_grid_new_grid])
       (use rc(3) that in \<open>simp add: ce_diffusion_value_def new_grid_nth\<close>)
  have zero': "r = new_grid h w 0" if "coeff = 0" "result = new_grid h w 0"
    by (rule is_grid_eqI[OF r(2) is_grid_new_grid])
       (use r(3) that in \<open>simp add: new_grid_nth\<close>)
  show ?thesis
    using r(1,2) rc(1,2) cells small zero zero' by (intro exI[of _ r] exI[of _ rc]) simp
qed

theorem applyDiffusion_stencil_witness:
  "is_grid 3 4 grid_example \<and> mask_covers 3 4 (ce_mi_region ce_example) \<and>
   (\<exists>r rc. fhn_applyDiffusion (FitzHughNagumo 4 3 1) grid_example 2 (new_grid 3 4 1) = Inr r \<and>
      ce_applyDiffusion ce_example grid_example (new_grid 3 4 1) = Inr rc \<and>
      r ! 1 ! 1 = 2 * (2 + 10 + 5 + 7 - 4 * 6) \<and> r ! 1 ! 2 = 2 * (3 + 11 + 6 + 8 - 4 * 7) \<and>
      r ! 0 ! 1 = 1 \<and> rc ! 1 ! 1 = 2 * (2 + 10 + 5 + 7 - 4 * 6) \<and> rc ! 1 ! 2 = 0 \<and> rc ! 2 ! 3 = 1) \<and>
   fhn_applyDiffusion (FitzHughNagumo 2 2 1) grid_small 2 grid_small = Inr grid_small \<and>
   ce_applyDiffusion ce_small grid_small grid_small = Inr grid_small \<and>
   fhn_applyDiffusion (FitzHughNagumo 4 3 1) grid_example 0 (new_grid 3 4 0) = Inr (new_grid 3 4 0) \<and>
   ce_applyDiffusion (ce_example\<lparr>ce_conductivity := 0\<rparr>) grid_example (new_grid 3 4 0)
     = Inr (new_grid 3 4 0)"
proof -
  have g: "is_grid 3 4 grid_example" by code_simp
  have r: "is_grid 3 4 (new_grid 3 4 (1::real))" by (rule is_grid_new_grid)
  have mc: "mask_covers 3 4 (ce_mi_region ce_example)" by code_simp
  have d: "fhn_height (FitzHughNagumo 4 3 1) = 3" "fhn_width (FitzHughNagumo 4 3 1) = 4"
    "ce_height ce_example = 3" "ce_width ce_example = 4"
    by (simp_all add: FitzHughNagumo_def ce_example_def)
  from applyDiffusion_stencil[OF g r d mc, of 2]
  obtain r rc where *: "fhn_applyDiffusion (FitzHughNagumo 4 3 1) grid_example 2 (new_grid 3 4 1) = Inr r"
      "ce_applyDiffusion ce_example grid_example (new_grid 3 4 1) = Inr rc"
      "\<forall>y x. y < 3 \<longrightarrow> x < 4 \<longrightarrow>
              r ! y ! x =
                (if 1 \<le> y \<and> y + 2 \<le> 3 \<and> 1 \<le> x \<and> x + 2 \<le> 4
                 then 2 * (grid_example ! (y - 1) ! x + grid_example ! (y + 1) ! x + grid_example ! y ! (x - 1)
                               + grid_example ! y ! (x + 1) - 4 * grid_example ! y ! x)
                 else new_grid 3 4 1 ! y ! x) \<and>
              rc ! y ! x =
                (if 1 \<le> y \<and> y + 2 \<le> 3 \<and> 1 \<le> x \<and> x + 2 \<le> 4
                 then if ce_mi_region ce_example ! y ! x then 0
                      else ce_conductivity ce_example * (grid_example ! (y - 1) ! x + grid_example ! (y + 1) ! x
                             + grid_example ! y ! (x - 1) + grid_example ! y ! (x + 1) - 4 * grid_example ! y ! x)
                 else new_grid 3 4 1 ! y ! x)"
    by blast
  have "r ! 1 ! 1 = 2 * (2 + 10 + 5 + 7 - 4 * 6) \<and> rc ! 1 ! 1 = 2 * (2 + 10 + 5 + 7 - 4 * 6)"
    using *(3)[rule_format, of 1 1] by (simp add: grid_example_def ce_example_def)
  moreover have "r ! 1 ! 2 = 2 * (3 + 11 + 6 + 8 - 4 * 7) \<and> rc ! 1 ! 2 = 0"
    using *(3)[rule_format, of 1 2] by (simp add: grid_example_def ce_example_def)
  moreover have "r ! 0 ! 1 = 1"
    using *(3)[rule_format, of 0 1] by (simp add: new_grid_def)
  moreover have "rc ! 2 ! 3 = 1"
    using *(3)[rule_format, of 2 3] by (simp add: new_grid_def eval_nat_numeral)
  ultimately have main: "\<exists>r rc. fhn_applyDiffusion (FitzHughNagumo 4 3 1) grid_example 2 (new_grid 3 4 1) = Inr r \<and>
      ce_applyDiffusion ce_example grid_example (new_grid 3 4 1) = Inr rc \<and>
      r ! 1 ! 1 = 2 * (2 + 10 + 5 + 7 - 4 * 6) \<and> r ! 1 ! 2 = 2 * (3 + 11 + 6 + 8 - 4 * 7) \<and>
      r ! 0 ! 1 = 1 \<and> rc ! 1 ! 1 = 2 * (2 + 10 + 5 + 7 - 4 * 6) \<and> rc ! 1 ! 2 = 0 \<and> rc ! 2 ! 3 = 1"
    using *(1,2) by blast
  have gs: "is_grid 2 2 grid_small" by code_simp
  have ms: "mask_covers 2 2 (ce_mi_region ce_small)" by code_simp
  have ds: "fhn_height (FitzHughNagumo 2 2 1) = 2" "fhn_width (FitzHughNagumo 2 2 1) = 2"
    "ce_height ce_small = 2" "ce_width ce_small = 2"
    by (simp_all add: FitzHughNagumo_def ce_small_def)
  from applyDiffusion_stencil[OF gs gs ds ms, of 2]
  have small: "fhn_applyDiffusion (FitzHughNagumo 2 2 1) grid_small 2 grid_small = Inr grid_small"
    "ce_applyDiffusion ce_small grid_small grid_small = Inr grid_small"
    by auto
  have z: "is_grid 3 4 (new_grid 3 4 (0::real))" by (rule is_grid_new_grid)
  have dz: "ce_height (ce_example\<lparr>ce_conductivity := 0\<rparr>) = 3"
    "ce_width (ce_example\<lparr>ce_conductivity := 0\<rparr>) = 4"
    "mask_covers 3 4 (ce_mi_region (ce_example\<lparr>ce_conductivity := 0\<rparr>))"
    "ce_conductivity (ce_example\<lparr>ce_conductivity := 0\<rparr>) = 0"
    using mc by (simp_all add: ce_example_def)
  from applyDiffusion_stencil[OF g z d(1,2) dz(1,2,3), of 0] dz(4)
  have zero: "fhn_applyDiffusion (FitzHughNagumo 4 3 1) grid_example 0 (new_grid 3 4 0) = Inr (new_grid 3 4 0)"
    "ce_applyDiffusion (ce_example\<lparr>ce_conductivity := 0\<rparr>) grid_example (new_grid 3 4 0)
       = Inr (new_grid 3 4 0)"
    by auto
  from g mc main small zero show ?thesis by blast
qed

text \<open>
  C3. For every cell flagged in the tissue mask and every number of steps \<open>n\<close>, the cell's
  potential after \<open>n\<close> steps equals its value when the mask was applied with
  \<^verbatim>\<open>setMIRegion\<close>, and the diffusion term the next step computes for the cell is zero.
  This holds for both ionic models and every mask that passes the check of
  \<^verbatim>\<open>setMIRegion\<close> and has no row shorter than the grid width; the Simplified Excitable
  model has no tissue mask, so it has no flagged cell.
\<close>

theorem scar_cells_frozen:
  assumes "lr_wf a" and "length mi = ce_height a"
    and "ce_height a > 0 \<longrightarrow> length (mi ! 0) = ce_width a"
    and "\<forall>y<ce_height a. ce_width a \<le> length (mi ! y)"
    and "tt_wf b" and "length mj = ce_height b"
    and "ce_height b > 0 \<longrightarrow> length (mj ! 0) = ce_width b"
    and "\<forall>y<ce_height b. ce_width b \<le> length (mj ! y)"
  shows "\<exists>an dA bn dB.
      lr_run n (setMIRegion a mi) = Inr an \<and>
      ce_applyDiffusion an (lr_V an) (new_grid (ce_height an) (ce_width an) 0) = Inr dA \<and>
      tt_run n (setMIRegion b mj) = Inr bn \<and>
      ce_applyDiffusion bn (tt_V bn) (new_grid (ce_height bn) (ce_width bn) 0) = Inr dB \<and>
      (\<forall>y x. y < ce_height a \<longrightarrow> x < ce_width a \<longrightarrow> mi ! y ! x \<longrightarrow>
         lr_V an ! y ! x = lr_V a ! y ! x \<and> dA ! y ! x = 0) \<and>
      (\<forall>y x. y < ce_height b \<longrightarrow> x < ce_width b \<longrightarrow> mj ! y ! x \<longrightarrow>
         tt_V bn ! y ! x = tt_V b ! y ! x \<and> dB ! y ! x = 0)"
proof -
  let ?a = "setMIRegion a mi" and ?b = "setMIRegion b mj"
  have ea: "?a = a\<lparr>ce_mi_region := mi\<rparr>"
    using assms(2,3) by (auto simp: setMIRegion_def)
  have wa: "lr_wf ?a"
    by (rule lr_wf_setMIRegion_rows[OF assms(1,2,3,4)])
  have eb: "?b = b\<lparr>ce_mi_region := mj\<rparr>"
    using assms(6,7) by (auto simp: setMIRegion_def)
  have wb: "tt_wf ?b"
    by (rule tt_wf_setMIRegion_rows[OF assms(5,6,7,8)])
  have sa: "ce_height ?a = ce_height a" "ce_width ?a = ce_width a" "ce_mi_region ?a = mi"
    "lr_V ?a = lr_V a"
    by (simp_all add: ea)
  have sb: "ce_height ?b = ce_height b" "ce_width ?b = ce_width b" "ce_mi_region ?b = mj"
    "tt_V ?b = tt_V b"
    by (simp_all add: eb)
  from lr_run_props[OF wa, of n] obtain an where an: "lr_run n ?a = Inr an" "lr_wf an"
    "ce_height an = ce_height a" "ce_width an = ce_width a" "ce_mi_region an = mi"
    "\<forall>y x. y < ce_height a \<longrightarrow> x < ce_width a \<longrightarrow> mi ! y ! x \<longrightarrow> lr_V an ! y ! x = lr_V a ! y ! x"
    unfolding sa by blast
  from tt_run_props[OF wb, of n] obtain bn where bn: "tt_run n ?b = Inr bn" "tt_wf bn"
    "ce_height bn = ce_height b" "ce_width bn = ce_width b" "ce_mi_region bn = mj"
    "\<forall>y x. y < ce_height b \<longrightarrow> x < ce_width b \<longrightarrow> mj ! y ! x \<longrightarrow> tt_V bn ! y ! x = tt_V b ! y ! x"
    unfolding sb by blast
  from lr_diffusion_scar_zero[OF an(2)] obtain dA where
    dA: "ce_applyDiffusion an (lr_V an) (new_grid (ce_height an) (ce_width an) 0) = Inr dA"
    "\<forall>y x. y < ce_height a \<longrightarrow> x < ce_width a \<longrightarrow> mi ! y ! x \<longrightarrow> dA ! y ! x = 0"
    unfolding an(3,4,5) by blast
  from tt_diffusion_scar_zero[OF bn(2)] obtain dB where
    dB: "ce_applyDiffusion bn (tt_V bn) (new_grid (ce_height bn) (ce_width bn) 0) = Inr dB"
    "\<forall>y x. y < ce_height b \<longrightarrow> x < ce_width b \<longrightarrow> mj ! y ! x \<longrightarrow> dB ! y ! x = 0"
    unfolding bn(3,4,5) by blast
  show ?thesis
    using an(1,6) bn(1,6) dA dB by (intro exI[of _ an] exI[of _ dA] exI[of _ bn] exI[of _ dB]) simp
qed

theorem scar_cells_frozen_witness:
  "lr_wf (LuoRudyModel 4 3 (1 / 100)) \<and> tt_wf (TenTusscherModel 4 3 (1 / 100)) \<and>
   is_grid 3 4 mask_example \<and> mask_example ! 1 ! 2 \<and>
   (\<exists>an bn. lr_run 5 (setMIRegion (LuoRudyModel 4 3 (1 / 100)) mask_example) = Inr an \<and>
        tt_run 5 (setMIRegion (TenTusscherModel 4 3 (1 / 100)) mask_example) = Inr bn \<and>
        lr_V an ! 1 ! 2 = - 84 \<and> tt_V bn ! 1 ! 2 = - 862 / 10)"
proof -
  have m: "is_grid 3 4 mask_example" "mask_example ! 1 ! 2" by code_simp+
  have d: "ce_height (LuoRudyModel 4 3 (1 / 100)) = 3" "ce_width (LuoRudyModel 4 3 (1 / 100)) = 4"
    "ce_height (TenTusscherModel 4 3 (1 / 100)) = 3" "ce_width (TenTusscherModel 4 3 (1 / 100)) = 4"
    by (simp_all add: LuoRudyModel_def lr_setCellType_def TenTusscherModel_def tt_setVariant_def)
  have v: "lr_V (LuoRudyModel 4 3 (1 / 100)) ! 1 ! 2 = - 84"
    "tt_V (TenTusscherModel 4 3 (1 / 100)) ! 1 ! 2 = - 862 / 10"
    by (simp_all add: LuoRudyModel_def lr_setCellType_def TenTusscherModel_def tt_setVariant_def
        new_grid_def)
  let ?a = "LuoRudyModel 4 3 (1 / 100)" and ?b = "TenTusscherModel 4 3 (1 / 100)"
  have l: "length mask_example = 3" "length (mask_example ! 0) = 4"
    "\<forall>y<3. 4 \<le> length (mask_example ! y)"
    by (simp_all add: mask_example_def less_Suc_eq numeral_3_eq_3)
  have ha: "length mask_example = ce_height ?a"
    "ce_height ?a > 0 \<longrightarrow> length (mask_example ! 0) = ce_width ?a"
    "\<forall>y<ce_height ?a. ce_width ?a \<le> length (mask_example ! y)"
    and hb: "length mask_example = ce_height ?b"
    "ce_height ?b > 0 \<longrightarrow> length (mask_example ! 0) = ce_width ?b"
    "\<forall>y<ce_height ?b. ce_width ?b \<le> length (mask_example ! y)"
    unfolding d using l by simp_all
  from scar_cells_frozen[OF lr_wf_LuoRudyModel ha tt_wf_TenTusscherModel hb, of 5]
  obtain an dA bn dB where r:
    "lr_run 5 (setMIRegion ?a mask_example) = Inr an"
    "tt_run 5 (setMIRegion ?b mask_example) = Inr bn"
    "\<forall>y x. y < ce_height ?a \<longrightarrow> x < ce_width ?a \<longrightarrow> mask_example ! y ! x \<longrightarrow>
         lr_V an ! y ! x = lr_V ?a ! y ! x \<and> dA ! y ! x = (0::real)"
    "\<forall>y x. y < ce_height ?b \<longrightarrow> x < ce_width ?b \<longrightarrow> mask_example ! y ! x \<longrightarrow>
         tt_V bn ! y ! x = tt_V ?b ! y ! x \<and> dB ! y ! x = (0::real)"
    by blast
  have "lr_V an ! 1 ! 2 = - 84"
    using r(3)[rule_format, of 1 2] m(2) d v by simp
  moreover have "tt_V bn ! 1 ! 2 = - 862 / 10"
    using r(4)[rule_format, of 1 2] m(2) d v by simp
  ultimately show ?thesis
    using m r(1,2) lr_wf_LuoRudyModel tt_wf_TenTusscherModel by blast
qed

text \<open>
  C7. In both ionic models the intracellular calcium concentration of every cell lies in
  \<open>[10\<^sup>-\<^sup>4, 10\<^sup>-\<^sup>2]\<close> after construction and after every step: a step clamps the
  updated concentration of each cell outside the mask into the interval and leaves the
  concentration of a masked cell as it was.
\<close>

theorem cai_clamped:
  "lr_wf (LuoRudyModel w h dt) \<and> cai_in_range (lr_Cai (LuoRudyModel w h dt)) \<and>
   tt_wf (TenTusscherModel w h dt) \<and> cai_in_range (tt_Cai (TenTusscherModel w h dt)) \<and>
   (lr_wf a \<longrightarrow> cai_in_range (lr_Cai a) \<longrightarrow>
      (\<exists>a'. lr_run n a = Inr a' \<and> lr_wf a' \<and> cai_in_range (lr_Cai a'))) \<and>
   (tt_wf b \<longrightarrow> cai_in_range (tt_Cai b) \<longrightarrow>
      (\<exists>b'. tt_run n b = Inr b' \<and> tt_wf b' \<and> cai_in_range (tt_Cai b'))) \<and>
   (lr_wf a \<longrightarrow>
      (\<exists>a'. lr_step a = Inr a' \<and>
         (\<forall>y x. y < ce_height a \<longrightarrow> x < ce_width a \<longrightarrow>
            (if ce_mi_region a ! y ! x then lr_Cai a' ! y ! x = lr_Cai a ! y ! x
             else 0.0001 \<le> lr_Cai a' ! y ! x \<and> lr_Cai a' ! y ! x \<le> 0.01)))) \<and>
   (tt_wf b \<longrightarrow>
      (\<exists>b'. tt_step b = Inr b' \<and>
         (\<forall>y x. y < ce_height b \<longrightarrow> x < ce_width b \<longrightarrow>
            (if ce_mi_region b ! y ! x then tt_Cai b' ! y ! x = tt_Cai b ! y ! x
             else 0.0001 \<le> tt_Cai b' ! y ! x \<and> tt_Cai b' ! y ! x \<le> 0.01))))"
proof -
  have c1: "cai_in_range (lr_Cai (LuoRudyModel w h dt))"
    using cai_in_range_iff[OF is_grid_new_grid[of h w "0.0002::real"]]
    by (simp add: LuoRudyModel_def lr_setCellType_def new_grid_nth)
  have c2: "cai_in_range (tt_Cai (TenTusscherModel w h dt))"
    using cai_in_range_iff[OF is_grid_new_grid[of h w "0.0002::real"]]
    by (simp add: TenTusscherModel_def tt_setVariant_def new_grid_nth)
  have r1: "\<exists>a'. lr_run n a = Inr a' \<and> lr_wf a' \<and> cai_in_range (lr_Cai a')"
    if "lr_wf a" "cai_in_range (lr_Cai a)"
    using lr_run_props[OF that(1), of n] that(2) by blast
  have r2: "\<exists>b'. tt_run n b = Inr b' \<and> tt_wf b' \<and> cai_in_range (tt_Cai b')"
    if "tt_wf b" "cai_in_range (tt_Cai b)"
    using tt_run_props[OF that(1), of n] that(2) by blast
  have s1: "\<exists>a'. lr_step a = Inr a' \<and>
         (\<forall>y x. y < ce_height a \<longrightarrow> x < ce_width a \<longrightarrow>
            (if ce_mi_region a ! y ! x then lr_Cai a' ! y ! x = lr_Cai a ! y ! x
             else 0.0001 \<le> lr_Cai a' ! y ! x \<and> lr_Cai a' ! y ! x \<le> 0.01))"
    if "lr_wf a"
  proof -
    from lr_step_props[OF that] obtain a' where a': "lr_step a = Inr a'"
      "\<forall>y x. y < ce_height a \<longrightarrow> x < ce_width a \<longrightarrow>
              (if ce_mi_region a ! y ! x
               then lr_V a' ! y ! x = lr_V a ! y ! x \<and> lr_Cai a' ! y ! x = lr_Cai a ! y ! x
               else 0.0001 \<le> lr_Cai a' ! y ! x \<and> lr_Cai a' ! y ! x \<le> 0.01)"
      by blast
    have "if ce_mi_region a ! y ! x then lr_Cai a' ! y ! x = lr_Cai a ! y ! x
             else 0.0001 \<le> lr_Cai a' ! y ! x \<and> lr_Cai a' ! y ! x \<le> 0.01"
      if "y < ce_height a" "x < ce_width a" for y x
      using a'(2)[rule_format, OF that] by (simp split: if_splits)
    with a'(1) show ?thesis by blast
  qed
  have s2: "\<exists>b'. tt_step b = Inr b' \<and>
         (\<forall>y x. y < ce_height b \<longrightarrow> x < ce_width b \<longrightarrow>
            (if ce_mi_region b ! y ! x then tt_Cai b' ! y ! x = tt_Cai b ! y ! x
             else 0.0001 \<le> tt_Cai b' ! y ! x \<and> tt_Cai b' ! y ! x \<le> 0.01))"
    if "tt_wf b"
  proof -
    from tt_step_props[OF that] obtain b' where b': "tt_step b = Inr b'"
      "\<forall>y x. y < ce_height b \<longrightarrow> x < ce_width b \<longrightarrow>
              (if ce_mi_region b ! y ! x
               then tt_V b' ! y ! x = tt_V b ! y ! x \<and> tt_Cai b' ! y ! x = tt_Cai b ! y ! x
               else 0.0001 \<le> tt_Cai b' ! y ! x \<and> tt_Cai b' ! y ! x \<le> 0.01)"
      by blast
    have "if ce_mi_region b ! y ! x then tt_Cai b' ! y ! x = tt_Cai b ! y ! x
             else 0.0001 \<le> tt_Cai b' ! y ! x \<and> tt_Cai b' ! y ! x \<le> 0.01"
      if "y < ce_height b" "x < ce_width b" for y x
      using b'(2)[rule_format, OF that] by (simp split: if_splits)
    with b'(1) show ?thesis by blast
  qed
  show ?thesis
    using lr_wf_LuoRudyModel tt_wf_TenTusscherModel c1 c2 r1 r2 s1 s2 by (intro conjI impI) blast+
qed


theorem cai_clamped_witness:
  "lr_wf (setMIRegion (LuoRudyModel 4 3 (1 / 100)) mask_example) \<and>
   cai_in_range (lr_Cai (setMIRegion (LuoRudyModel 4 3 (1 / 100)) mask_example)) \<and>
   tt_wf (setMIRegion (TenTusscherModel 4 3 (1 / 100)) mask_example) \<and>
   cai_in_range (tt_Cai (setMIRegion (TenTusscherModel 4 3 (1 / 100)) mask_example)) \<and>
   (\<exists>a'. lr_run 3 (setMIRegion (LuoRudyModel 4 3 (1 / 100)) mask_example) = Inr a' \<and>
         cai_in_range (lr_Cai a')) \<and>
   (\<exists>b'. tt_run 3 (setMIRegion (TenTusscherModel 4 3 (1 / 100)) mask_example) = Inr b' \<and>
         cai_in_range (tt_Cai b'))"
proof -
  let ?lm = "LuoRudyModel 4 3 (1 / 100)" and ?tm = "TenTusscherModel 4 3 (1 / 100)"
  let ?a = "setMIRegion ?lm mask_example" and ?b = "setMIRegion ?tm mask_example"
  have m: "is_grid 3 4 mask_example" by code_simp
  have d: "ce_height ?lm = 3" "ce_width ?lm = 4" "ce_height ?tm = 3" "ce_width ?tm = 4"
    by (simp_all add: LuoRudyModel_def lr_setCellType_def TenTusscherModel_def tt_setVariant_def)
  have ga: "is_grid (ce_height ?lm) (ce_width ?lm) mask_example"
    and gb: "is_grid (ce_height ?tm) (ce_width ?tm) mask_example"
    using m d by simp_all
  have wa: "lr_wf ?a" and ea: "?a = ?lm\<lparr>ce_mi_region := mask_example\<rparr>"
    using lr_wf_setMIRegion[OF lr_wf_LuoRudyModel ga] by simp_all
  have wb: "tt_wf ?b" and eb: "?b = ?tm\<lparr>ce_mi_region := mask_example\<rparr>"
    using tt_wf_setMIRegion[OF tt_wf_TenTusscherModel gb] by simp_all
  from cai_clamped[of 4 3 "1 / 100" ?a 3 ?b]
  have c0: "cai_in_range (lr_Cai ?lm)" "cai_in_range (tt_Cai ?tm)"
    and r: "lr_wf ?a \<longrightarrow> cai_in_range (lr_Cai ?a) \<longrightarrow>
              (\<exists>a'. lr_run 3 ?a = Inr a' \<and> lr_wf a' \<and> cai_in_range (lr_Cai a'))"
       "tt_wf ?b \<longrightarrow> cai_in_range (tt_Cai ?b) \<longrightarrow>
              (\<exists>b'. tt_run 3 ?b = Inr b' \<and> tt_wf b' \<and> cai_in_range (tt_Cai b'))"
    by blast+
  have ca: "cai_in_range (lr_Cai ?a)" using c0(1) by (simp add: ea)
  have cb: "cai_in_range (tt_Cai ?b)" using c0(2) by (simp add: eb)
  from r wa wb ca cb show ?thesis by blast
qed

text \<open>
  C10. The tissue mask zeroes only the flagged cell's own diffusion term. The stored
  potential of a flagged cell still enters the five-point stencil of each adjacent
  interior cell outside the mask: that cell's term is the conductivity times the
  stencil over the stored values, and changing the stored potential of the flagged
  neighbour by some amount changes the term by the conductivity times that amount.
\<close>

theorem scar_value_in_neighbour_stencil:
  assumes "is_grid h w grid" and "is_grid h w result"
    and "ce_height c = h" and "ce_width c = w" and "mask_covers h w (ce_mi_region c)"
    and "1 \<le> y" and "y + 2 \<le> h" and "1 \<le> x" and "x + 2 \<le> w"
    and "\<not> ce_mi_region c ! y ! x"
    and "(ys, xs) \<in> {(y - 1, x), (y + 1, x), (y, x - 1), (y, x + 1)}"
    and "ce_mi_region c ! ys ! xs"
  shows "\<exists>r r'. ce_applyDiffusion c grid result = Inr r \<and>
           ce_applyDiffusion c (grid_set grid ys xs v) result = Inr r' \<and>
           r ! y ! x = ce_conductivity c * (grid ! (y - 1) ! x + grid ! (y + 1) ! x
                         + grid ! y ! (x - 1) + grid ! y ! (x + 1) - 4 * grid ! y ! x) \<and>
           r' ! y ! x = r ! y ! x + ce_conductivity c * (v - grid ! ys ! xs) \<and>
           (1 \<le> ys \<and> ys + 2 \<le> h \<and> 1 \<le> xs \<and> xs + 2 \<le> w \<longrightarrow> r ! ys ! xs = 0 \<and> r' ! ys ! xs = 0)"
proof -
  let ?g' = "grid_set grid ys xs v"
  have g': "is_grid h w ?g'" by (rule is_grid_grid_set[OF assms(1)])
  from ce_applyDiffusion_cells[OF assms(1,2,3,4,5)]
  obtain r where r: "ce_applyDiffusion c grid result = Inr r"
    "\<forall>y x. r ! y ! x = (if interior h w y x then ce_diffusion_value c grid y x else result ! y ! x)"
    by blast
  from ce_applyDiffusion_cells[OF g' assms(2,3,4,5)]
  obtain r' where r': "ce_applyDiffusion c ?g' result = Inr r'"
    "\<forall>y x. r' ! y ! x = (if interior h w y x then ce_diffusion_value c ?g' y x else result ! y ! x)"
    by blast
  have int: "interior h w y x" using assms(6-9) by (simp add: interior_iff)
  have ing: "in_grid grid ys xs"
    using assms(6-9,11) by (auto intro!: is_grid_in_grid[OF assms(1)])
  have lap: "laplacian5 ?g' y x = laplacian5 grid y x + (v - grid ! ys ! xs)"
    using assms(6-9,11) ing
    by (auto simp: laplacian5_def grid_set_same grid_set_other)
  have 1: "r ! y ! x = ce_conductivity c * (grid ! (y - 1) ! x + grid ! (y + 1) ! x
                         + grid ! y ! (x - 1) + grid ! y ! (x + 1) - 4 * grid ! y ! x)"
    using r(2)[rule_format, of y x] int assms(10) by (simp add: ce_diffusion_value_def laplacian5_def)
  have 2: "r' ! y ! x = r ! y ! x + ce_conductivity c * (v - grid ! ys ! xs)"
    using r'(2)[rule_format, of y x] r(2)[rule_format, of y x] int assms(10) lap
    by (simp add: ce_diffusion_value_def algebra_simps)
  have 3: "r ! ys ! xs = 0 \<and> r' ! ys ! xs = 0" if "1 \<le> ys \<and> ys + 2 \<le> h \<and> 1 \<le> xs \<and> xs + 2 \<le> w"
    using r'(2)[rule_format, of ys xs] r(2)[rule_format, of ys xs] that assms(12)
    by (simp add: interior_iff ce_diffusion_value_def)
  from r(1) r'(1) 1 2 3 show ?thesis by blast
qed

theorem scar_value_in_neighbour_stencil_witness:
  "is_grid 3 4 grid_example \<and> mask_covers 3 4 (ce_mi_region ce_example) \<and>
   \<not> ce_mi_region ce_example ! 1 ! 1 \<and> ce_mi_region ce_example ! 1 ! 2 \<and>
   (\<exists>r r'. ce_applyDiffusion ce_example grid_example (new_grid 3 4 0) = Inr r \<and>
      ce_applyDiffusion ce_example (grid_set grid_example 1 2 100) (new_grid 3 4 0) = Inr r' \<and>
      r ! 1 ! 1 = 2 * (2 + 10 + 5 + 7 - 4 * 6) \<and> r' ! 1 ! 1 = r ! 1 ! 1 + 2 * (100 - 7) \<and>
      r ! 1 ! 2 = 0 \<and> r' ! 1 ! 2 = 0)"
proof -
  have g: "is_grid 3 4 grid_example" by code_simp
  have z: "is_grid 3 4 (new_grid 3 4 (0::real))" by (rule is_grid_new_grid)
  have mc: "mask_covers 3 4 (ce_mi_region ce_example)" by code_simp
  have d: "ce_height ce_example = 3" "ce_width ce_example = 4"
    by (simp_all add: ce_example_def)
  have f: "\<not> ce_mi_region ce_example ! 1 ! 1" "ce_mi_region ce_example ! 1 ! 2"
    by (simp_all add: ce_example_def)
  have nb: "(1::nat, 2::nat) \<in> {(1 - 1, 1), (1 + 1, 1), (1, 1 - 1), (1, 1 + 1)}" by simp
  from scar_value_in_neighbour_stencil[OF g z d mc _ _ _ _ f(1) nb f(2), of 100]
  obtain r r' where r: "ce_applyDiffusion ce_example grid_example (new_grid 3 4 0) = Inr r"
    "ce_applyDiffusion ce_example (grid_set grid_example 1 2 100) (new_grid 3 4 0) = Inr r'"
    "r ! 1 ! 1 = ce_conductivity ce_example * (grid_example ! (1 - 1) ! 1 + grid_example ! (1 + 1) ! 1
                         + grid_example ! 1 ! (1 - 1) + grid_example ! 1 ! (1 + 1) - 4 * grid_example ! 1 ! 1)"
    "r' ! 1 ! 1 = r ! 1 ! 1 + ce_conductivity ce_example * (100 - grid_example ! 1 ! 2)"
    "r ! 1 ! 2 = 0 \<and> r' ! 1 ! 2 = 0"
    by auto
  have "r ! 1 ! 1 = 2 * (2 + 10 + 5 + 7 - 4 * 6)"
    using r(3) by (simp add: ce_example_def grid_example_def)
  moreover have "r' ! 1 ! 1 = r ! 1 ! 1 + 2 * (100 - 7)"
    using r(4) by (simp add: ce_example_def grid_example_def)
  ultimately show ?thesis using g mc f r(1,2,5) by blast
qed

text \<open>
  C8. Two runs of the same number of steps from states with the same grid, time step,
  time, parameters \<open>a\<close>, \<open>b\<close>, \<open>c\<close>, diffusion coefficients, fields \<open>u\<close>, \<open>v\<close> and stimuli
  end with the same fields and the same simulation time: the result does not depend on
  the scratch buffers or on the unused parameter \<open>d\<close>. A run of the Luo-Rudy model is a
  function of its state, and its outcome does not depend on the two members a step never
  reads. \<^verbatim>\<open>initialize\<close>, the only place that draws random numbers, is not part of a step.
\<close>

theorem run_deterministic:
  assumes "fhn_wf m1" and "fhn_wf m2"
    and "fhn_width m1 = fhn_width m2" and "fhn_height m1 = fhn_height m2"
    and "fhn_dt m1 = fhn_dt m2" and "fhn_time m1 = fhn_time m2"
    and "fhn_a m1 = fhn_a m2" and "fhn_b m1 = fhn_b m2" and "fhn_c m1 = fhn_c m2"
    and "fhn_du m1 = fhn_du m2" and "fhn_dv m1 = fhn_dv m2"
    and "fhn_u m1 = fhn_u m2" and "fhn_v m1 = fhn_v m2" and "fhn_stimulus m1 = fhn_stimulus m2"
  shows "(\<exists>r1 r2. fhn_run n m1 = Inr r1 \<and> fhn_run n m2 = Inr r2 \<and>
            fhn_u r1 = fhn_u r2 \<and> fhn_v r1 = fhn_v r2 \<and> fhn_time r1 = fhn_time r2) \<and>
         lr_run n (a\<lparr>lr_CaSR := c, lr_Gsi := g\<rparr>) =
           map_sum id (\<lambda>a'. a'\<lparr>lr_CaSR := c, lr_Gsi := g\<rparr>) (lr_run n a)"
proof -
  have "fhn_agree m1 m2"
    using assms(3-) by (simp add: fhn_agree_def)
  from fhn_run_agree[OF assms(1,2) this, of n]
  have "\<exists>r1 r2. fhn_run n m1 = Inr r1 \<and> fhn_run n m2 = Inr r2 \<and>
            fhn_u r1 = fhn_u r2 \<and> fhn_v r1 = fhn_v r2 \<and> fhn_time r1 = fhn_time r2"
    by (auto simp: fhn_agree_def)
  moreover have "lr_run n (a\<lparr>lr_CaSR := c, lr_Gsi := g\<rparr>) =
           map_sum id (\<lambda>a'. a'\<lparr>lr_CaSR := c, lr_Gsi := g\<rparr>) (lr_run n a)"
    using lr_run_unread[of n c g a] by (simp add: lr_unread_def[abs_def])
  ultimately show ?thesis by blast
qed

theorem run_deterministic_witness:
  "fhn_wf fhn_example \<and> fhn_wf fhn_example_scratch \<and>
   fhn_u_new fhn_example \<noteq> fhn_u_new fhn_example_scratch \<and>
   (\<exists>r1 r2. fhn_run 3 fhn_example = Inr r1 \<and> fhn_run 3 fhn_example_scratch = Inr r2 \<and>
        fhn_u r1 = fhn_u r2 \<and> fhn_v r1 = fhn_v r2 \<and> fhn_time r1 = fhn_time r2)"
proof -
  have w: "fhn_wf fhn_example_scratch" by code_simp
  have ne: "fhn_u_new fhn_example \<noteq> fhn_u_new fhn_example_scratch" by code_simp
  have "\<exists>r1 r2. fhn_run 3 fhn_example = Inr r1 \<and> fhn_run 3 fhn_example_scratch = Inr r2 \<and>
        fhn_u r1 = fhn_u r2 \<and> fhn_v r1 = fhn_v r2 \<and> fhn_time r1 = fhn_time r2"
    using run_deterministic[OF fhn_wf_example w, of 3]
    by (simp add: fhn_example_scratch_def)
  with fhn_wf_example w ne show ?thesis by blast
qed

text \<open>
  C9, as amended. The dimension validation in \<^verbatim>\<open>setMIRegion\<close> and
  \<^verbatim>\<open>setInitialConditions\<close> inspects only the number of rows and the length of row 0, so
  an input whose row count is the grid height and whose first row has the grid width
  passes it whatever the length of the later rows. \<^verbatim>\<open>setMIRegion\<close> installs such a mask
  as it is: when some row is shorter than the grid width the next step of either ionic
  model indexes the mask out of range, and when every row is at least as long as the
  grid width the step runs without fault. \<^verbatim>\<open>setInitialConditions\<close> copies cell by cell:
  when some row of either argument is shorter than the grid width the copy itself reads
  out of range, and otherwise the first \<open>width\<close> values of every row are installed and
  the next step runs without fault.
\<close>

theorem dimension_check_first_row_only:
  assumes "lr_wf a" and "length mi = ce_height a"
    and "ce_height a > 0 \<longrightarrow> length (mi ! 0) = ce_width a"
    and "tt_wf b" and "length mj = ce_height b"
    and "ce_height b > 0 \<longrightarrow> length (mj ! 0) = ce_width b"
    and "fhn_wf m" and "length ui = fhn_height m" and "length vi = fhn_height m"
    and "fhn_height m > 0 \<longrightarrow> length (ui ! 0) = fhn_width m \<and> length (vi ! 0) = fhn_width m"
  shows "ce_mi_region (setMIRegion a mi) = mi \<and> ce_mi_region (setMIRegion b mj) = mj \<and>
    ((\<exists>y<ce_height a. length (mi ! y) < ce_width a) \<longrightarrow>
        lr_step (setMIRegion a mi) = Inl OutOfBounds) \<and>
    ((\<forall>y<ce_height a. ce_width a \<le> length (mi ! y)) \<longrightarrow>
        (\<exists>a'. lr_step (setMIRegion a mi) = Inr a')) \<and>
    ((\<exists>y<ce_height b. length (mj ! y) < ce_width b) \<longrightarrow>
        tt_step (setMIRegion b mj) = Inl OutOfBounds) \<and>
    ((\<forall>y<ce_height b. ce_width b \<le> length (mj ! y)) \<longrightarrow>
        (\<exists>b'. tt_step (setMIRegion b mj) = Inr b')) \<and>
    ((\<exists>y<fhn_height m. length (ui ! y) < fhn_width m \<or> length (vi ! y) < fhn_width m) \<longrightarrow>
        setInitialConditions m ui vi = Inl OutOfBounds) \<and>
    ((\<forall>y<fhn_height m. fhn_width m \<le> length (ui ! y) \<and> fhn_width m \<le> length (vi ! y)) \<longrightarrow>
        (\<exists>m' m''. setInitialConditions m ui vi = Inr m' \<and> fhn_step m' = Inr m'' \<and>
           (\<forall>y x. y < fhn_height m \<longrightarrow> x < fhn_width m \<longrightarrow>
              fhn_u m' ! y ! x = ui ! y ! x \<and> fhn_v m' ! y ! x = vi ! y ! x)))"
proof -
  have ea: "setMIRegion a mi = a\<lparr>ce_mi_region := mi\<rparr>"
    using assms(2,3) by (auto simp: setMIRegion_def)
  have eb: "setMIRegion b mj = b\<lparr>ce_mi_region := mj\<rparr>"
    using assms(5,6) by (auto simp: setMIRegion_def)
  have 1: "ce_mi_region (setMIRegion a mi) = mi" "ce_mi_region (setMIRegion b mj) = mj"
    by (simp_all add: ea eb)
  have 2: "lr_step (setMIRegion a mi) = Inl OutOfBounds" if "\<exists>y<ce_height a. length (mi ! y) < ce_width a"
  proof -
    from that obtain y where "y < ce_height a" "length (mi ! y) < ce_width a" by blast
    then show ?thesis
      by (intro lr_step_short_row[of y]) (simp_all add: ea)
  qed
  have 3: "\<exists>a'. lr_step (setMIRegion a mi) = Inr a'" if "\<forall>y<ce_height a. ce_width a \<le> length (mi ! y)"
    using lr_step_props[OF lr_wf_setMIRegion_rows[OF assms(1,2,3) that]] by blast
  have 4: "tt_step (setMIRegion b mj) = Inl OutOfBounds" if "\<exists>y<ce_height b. length (mj ! y) < ce_width b"
  proof -
    from that obtain y where "y < ce_height b" "length (mj ! y) < ce_width b" by blast
    then show ?thesis
      by (intro tt_step_short_row[of y]) (simp_all add: eb)
  qed
  have 5: "\<exists>b'. tt_step (setMIRegion b mj) = Inr b'" if "\<forall>y<ce_height b. ce_width b \<le> length (mj ! y)"
    using tt_step_props[OF tt_wf_setMIRegion_rows[OF assms(4,5,6) that]] by blast
  have 6: "setInitialConditions m ui vi = Inl OutOfBounds"
    if "\<exists>y<fhn_height m. length (ui ! y) < fhn_width m \<or> length (vi ! y) < fhn_width m"
    using that setInitialConditions_short_row[OF assms(8,9,10)] by blast
  have 7: "\<exists>m' m''. setInitialConditions m ui vi = Inr m' \<and> fhn_step m' = Inr m'' \<and>
           (\<forall>y x. y < fhn_height m \<longrightarrow> x < fhn_width m \<longrightarrow>
              fhn_u m' ! y ! x = ui ! y ! x \<and> fhn_v m' ! y ! x = vi ! y ! x)"
    if "\<forall>y<fhn_height m. fhn_width m \<le> length (ui ! y) \<and> fhn_width m \<le> length (vi ! y)"
  proof -
    from setInitialConditions_rows[OF assms(7,8,9,10) that]
    obtain m' where m': "setInitialConditions m ui vi = Inr m'" "fhn_wf m'"
      "\<forall>y x. y < fhn_height m \<longrightarrow> x < fhn_width m \<longrightarrow>
              fhn_u m' ! y ! x = ui ! y ! x \<and> fhn_v m' ! y ! x = vi ! y ! x"
      by blast
    from fhn_step_closed[OF m'(2)] obtain m'' where "fhn_step m' = Inr m''" by blast
    with m'(1,3) show ?thesis by blast
  qed
  from 1 2 3 4 5 6 7 show ?thesis by (intro conjI impI)
qed

theorem dimension_check_first_row_only_witness:
  "lr_wf (LuoRudyModel 2 2 (1 / 100)) \<and> tt_wf (TenTusscherModel 2 2 (1 / 100)) \<and>
   fhn_wf (FitzHughNagumo 2 2 (1 / 2)) \<and>
   length mask_short_row = 2 \<and> length (mask_short_row ! 0) = 2 \<and> length (mask_short_row ! 1) < 2 \<and>
   length init_short_row = 2 \<and> length (init_short_row ! 0) = 2 \<and> length (init_short_row ! 1) < 2 \<and>
   ce_mi_region (setMIRegion (LuoRudyModel 2 2 (1 / 100)) mask_short_row) = mask_short_row \<and>
   lr_step (setMIRegion (LuoRudyModel 2 2 (1 / 100)) mask_short_row) = Inl OutOfBounds \<and>
   tt_step (setMIRegion (TenTusscherModel 2 2 (1 / 100)) mask_short_row) = Inl OutOfBounds \<and>
   setInitialConditions (FitzHughNagumo 2 2 (1 / 2)) init_short_row init_short_row = Inl OutOfBounds \<and>
   length mask_long_row = 2 \<and> length (mask_long_row ! 0) = 2 \<and> length (mask_long_row ! 1) = 3 \<and>
   length init_long_row = 2 \<and> length (init_long_row ! 0) = 2 \<and> length (init_long_row ! 1) = 3 \<and>
   ce_mi_region (setMIRegion (TenTusscherModel 2 2 (1 / 100)) mask_long_row) = mask_long_row \<and>
   (\<exists>a'. lr_step (setMIRegion (LuoRudyModel 2 2 (1 / 100)) mask_long_row) = Inr a') \<and>
   (\<exists>b'. tt_step (setMIRegion (TenTusscherModel 2 2 (1 / 100)) mask_long_row) = Inr b') \<and>
   (\<exists>m' m''. setInitialConditions (FitzHughNagumo 2 2 (1 / 2)) init_long_row init_long_row = Inr m' \<and>
       fhn_step m' = Inr m'' \<and> fhn_u m' ! 1 ! 1 = 4)"
proof -
  let ?a = "LuoRudyModel 2 2 (1 / 100)" and ?b = "TenTusscherModel 2 2 (1 / 100)"
  let ?m = "FitzHughNagumo 2 2 (1 / 2)"
  have d: "ce_height ?a = 2" "ce_width ?a = 2" "ce_height ?b = 2" "ce_width ?b = 2"
    "fhn_height ?m = 2" "fhn_width ?m = 2"
    by (simp_all add: LuoRudyModel_def lr_setCellType_def TenTusscherModel_def tt_setVariant_def
        FitzHughNagumo_def)
  have l: "length mask_short_row = 2" "length (mask_short_row ! 0) = 2" "length (mask_short_row ! 1) < 2"
    "length init_short_row = 2" "length (init_short_row ! 0) = 2" "length (init_short_row ! 1) < 2"
    by (simp_all add: mask_short_row_def init_short_row_def)
  have wm: "fhn_wf ?m" by code_simp
  have s1: "\<exists>y<ce_height ?a. length (mask_short_row ! y) < ce_width ?a"
    and s2: "\<exists>y<ce_height ?b. length (mask_short_row ! y) < ce_width ?b"
    and s3: "\<exists>y<fhn_height ?m. length (init_short_row ! y) < fhn_width ?m
                \<or> length (init_short_row ! y) < fhn_width ?m"
    unfolding d using l by (intro exI[of _ 1]; simp)+
  from dimension_check_first_row_only[of ?a mask_short_row ?b mask_short_row ?m init_short_row init_short_row]
    lr_wf_LuoRudyModel[of 2 2 "1 / 100"] tt_wf_TenTusscherModel[of 2 2 "1 / 100"] wm d l s1 s2 s3
  have "ce_mi_region (setMIRegion ?a mask_short_row) = mask_short_row \<and>
        lr_step (setMIRegion ?a mask_short_row) = Inl OutOfBounds \<and>
        tt_step (setMIRegion ?b mask_short_row) = Inl OutOfBounds \<and>
        setInitialConditions ?m init_short_row init_short_row = Inl OutOfBounds"
    by simp
  moreover
  have l': "length mask_long_row = 2" "length (mask_long_row ! 0) = 2" "length (mask_long_row ! 1) = 3"
    "length init_long_row = 2" "length (init_long_row ! 0) = 2" "length (init_long_row ! 1) = 3"
    by (simp_all add: mask_long_row_def init_long_row_def)
  have a1: "\<forall>y<ce_height ?a. ce_width ?a \<le> length (mask_long_row ! y)"
    and a2: "\<forall>y<ce_height ?b. ce_width ?b \<le> length (mask_long_row ! y)"
    and a3: "\<forall>y<fhn_height ?m. fhn_width ?m \<le> length (init_long_row ! y)
                \<and> fhn_width ?m \<le> length (init_long_row ! y)"
    unfolding d by (simp_all add: mask_long_row_def init_long_row_def less_Suc_eq numeral_2_eq_2)
  from dimension_check_first_row_only[of ?a mask_long_row ?b mask_long_row ?m init_long_row init_long_row]
    lr_wf_LuoRudyModel[of 2 2 "1 / 100"] tt_wf_TenTusscherModel[of 2 2 "1 / 100"] wm d l' a1 a2 a3
  have long: "ce_mi_region (setMIRegion ?b mask_long_row) = mask_long_row"
      "\<exists>a'. lr_step (setMIRegion ?a mask_long_row) = Inr a'"
      "\<exists>b'. tt_step (setMIRegion ?b mask_long_row) = Inr b'"
      "\<exists>m' m''. setInitialConditions ?m init_long_row init_long_row = Inr m' \<and> fhn_step m' = Inr m'' \<and>
           (\<forall>y x. y < 2 \<longrightarrow> x < 2 \<longrightarrow>
              fhn_u m' ! y ! x = init_long_row ! y ! x \<and> fhn_v m' ! y ! x = init_long_row ! y ! x)"
    by simp_all
  from long(4) obtain m' m'' where m': "setInitialConditions ?m init_long_row init_long_row = Inr m'"
    "fhn_step m' = Inr m''" "fhn_u m' ! 1 ! 1 = init_long_row ! 1 ! 1"
    by force
  have "\<exists>m' m''. setInitialConditions ?m init_long_row init_long_row = Inr m' \<and>
       fhn_step m' = Inr m'' \<and> fhn_u m' ! 1 ! 1 = 4"
    using m' by (intro exI[of _ m'] exI[of _ m'']) (simp add: init_long_row_def)
  ultimately show ?thesis
    using lr_wf_LuoRudyModel tt_wf_TenTusscherModel wm l l' long(1,2,3) by simp
qed

text \<open>
  A mask whose second row is longer than the grid width passes the check and is
  installed, and the next step makes no access out of range.
\<close>

theorem dimension_check_counterexample:
  "length mask_long_row = ce_height (LuoRudyModel 2 2 (1 / 100)) \<and>
   length (mask_long_row ! 0) = ce_width (LuoRudyModel 2 2 (1 / 100)) \<and>
   length (mask_long_row ! 1) \<noteq> ce_width (LuoRudyModel 2 2 (1 / 100)) \<and>
   ce_mi_region (setMIRegion (LuoRudyModel 2 2 (1 / 100)) mask_long_row) = mask_long_row \<and>
   \<not> isl (lr_step (setMIRegion (LuoRudyModel 2 2 (1 / 100)) mask_long_row))"
proof -
  let ?a = "LuoRudyModel 2 2 (1 / 100)"
  have d: "ce_height ?a = 2" "ce_width ?a = 2"
    by (simp_all add: LuoRudyModel_def lr_setCellType_def)
  have l: "length mask_long_row = 2" "length (mask_long_row ! 0) = 2" "length (mask_long_row ! 1) = 3"
    by (simp_all add: mask_long_row_def)
  have rows: "\<forall>y<ce_height ?a. ce_width ?a \<le> length (mask_long_row ! y)"
    unfolding d by (simp add: mask_long_row_def less_Suc_eq numeral_2_eq_2)
  have wf: "lr_wf (setMIRegion ?a mask_long_row)"
    by (rule lr_wf_setMIRegion_rows[OF lr_wf_LuoRudyModel _ _ rows]) (simp_all add: d l)
  from lr_step_props[OF wf] have "\<not> isl (lr_step (setMIRegion ?a mask_long_row))"
    by auto
  moreover have "ce_mi_region (setMIRegion ?a mask_long_row) = mask_long_row"
    using d l by (simp add: setMIRegion_def)
  ultimately show ?thesis using d l by simp
qed

text \<open>
  C2, as amended. For the Simplified Excitable model, a stimulus set by
  \<^verbatim>\<open>addStimulus(x, y, strength, duration)\<close> at a valid coordinate stays in the stimulus
  field: after any number of steps it is still there, and the step that follows adds the
  strength to the reaction term of cell \<open>(x, y)\<close>. The duration is ignored.
\<close>

theorem stimulus_persists:
  assumes "fhn_wf m" and "isValidCoordinate m x y"
  shows "\<exists>m1 mn du_dt m'.
      addStimulus m x y strength duration = Inr m1 \<and>
      addStimulus m x y strength duration' = Inr m1 \<and>
      fhn_run n m1 = Inr mn \<and>
      fhn_stimulus mn ! nat y ! nat x = strength \<and>
      (if fhn_du mn > 0
       then fhn_applyDiffusion mn (fhn_u mn) (fhn_du mn) (new_grid (fhn_height mn) (fhn_width mn) 0)
       else Inr (new_grid (fhn_height mn) (fhn_width mn) 0)) = Inr du_dt \<and>
      fhn_step mn = Inr m' \<and>
      fhn_u m' ! nat y ! nat x =
        fhn_u mn ! nat y ! nat x + fhn_dt mn *
          (du_dt ! nat y ! nat x
           + reactionU (fhn_u mn ! nat y ! nat x) (fhn_v mn ! nat y ! nat x) strength)"
proof -
  let ?y = "nat y" and ?x = "nat x"
  have b: "?y < fhn_height m" "?x < fhn_width m"
    using assms(2) by (auto simp: isValidCoordinate_def)
  have gs: "is_grid (fhn_height m) (fhn_width m) (fhn_stimulus m)"
    using assms(1) by (simp add: fhn_wf_def)
  have ing: "in_grid (fhn_stimulus m) ?y ?x" by (rule is_grid_in_grid[OF gs b])
  let ?m1 = "m\<lparr>fhn_stimulus := grid_set (fhn_stimulus m) ?y ?x strength\<rparr>"
  have a: "addStimulus m x y strength duration = Inr ?m1"
    "addStimulus m x y strength duration' = Inr ?m1"
    using assms(2) ing by (simp_all add: addStimulus_def)
  have w1: "fhn_wf ?m1"
    using assms(1) by (simp add: fhn_wf_def is_grid_grid_set)
  from fhn_run_wf[OF w1, of n] obtain mn where mn: "fhn_run n ?m1 = Inr mn" "fhn_wf mn"
    "mn = ?m1\<lparr>fhn_u := fhn_u mn, fhn_v := fhn_v mn, fhn_u_new := fhn_u_new mn, fhn_v_new := fhn_v_new mn,
             fhn_time := fhn_time ?m1 + real n * fhn_dt ?m1\<rparr>"
    by blast
  have st: "fhn_stimulus mn = grid_set (fhn_stimulus m) ?y ?x strength"
    "fhn_height mn = fhn_height m" "fhn_width mn = fhn_width m"
    by (subst mn(3), simp)+
  have s: "fhn_stimulus mn ! ?y ! ?x = strength"
    unfolding st by (rule grid_set_same[OF ing])
  from fhn_step_closed[OF mn(2)] obtain m' du_dt where
    d: "(if fhn_du mn > 0
         then fhn_applyDiffusion mn (fhn_u mn) (fhn_du mn) (new_grid (fhn_height mn) (fhn_width mn) 0)
         else Inr (new_grid (fhn_height mn) (fhn_width mn) 0)) = Inr du_dt"
    and step: "fhn_step mn = Inr m'"
    and c: "\<forall>y x. y < fhn_height mn \<longrightarrow> x < fhn_width mn \<longrightarrow>
         fhn_u m' ! y ! x = fhn_u mn ! y ! x + fhn_dt mn *
            (du_dt ! y ! x + reactionU (fhn_u mn ! y ! x) (fhn_v mn ! y ! x) (fhn_stimulus mn ! y ! x))"
    by blast
  have "fhn_u m' ! ?y ! ?x =
        fhn_u mn ! ?y ! ?x + fhn_dt mn *
          (du_dt ! ?y ! ?x + reactionU (fhn_u mn ! ?y ! ?x) (fhn_v mn ! ?y ! ?x) strength)"
    using c[rule_format, of ?y ?x] b st(2,3) s by simp
  with a mn(1) s d step show ?thesis by blast
qed

theorem stimulus_persists_witness:
  "fhn_wf fhn_stim_example \<and> isValidCoordinate fhn_stim_example 0 0 \<and>
   (\<exists>m1 mn m'. addStimulus fhn_stim_example 0 0 1 10 = Inr m1 \<and> fhn_run 1 m1 = Inr mn \<and>
        fhn_stimulus mn ! 0 ! 0 = 1 \<and> fhn_step mn = Inr m')"
proof -
  have w: "fhn_wf fhn_stim_example" by code_simp
  have v: "isValidCoordinate fhn_stim_example 0 0" by code_simp
  from stimulus_persists[OF w v, where strength = 1 and duration = 10 and duration' = 0 and n = 1]
  obtain m1 mn m' where r: "addStimulus fhn_stim_example 0 0 1 10 = Inr m1" "fhn_run 1 m1 = Inr mn"
    "fhn_stimulus mn ! nat 0 ! nat 0 = 1" "fhn_step mn = Inr m'"
    by blast
  from r(3) have "fhn_stimulus mn ! 0 ! 0 = 1" by simp
  with r(1,2,4)
  have "\<exists>m1 mn m'. addStimulus fhn_stim_example 0 0 1 10 = Inr m1 \<and> fhn_run 1 m1 = Inr mn \<and>
        fhn_stimulus mn ! 0 ! 0 = 1 \<and> fhn_step mn = Inr m'"
    by blast
  with w v show ?thesis by blast
qed


text \<open>
  The stimulus does not expire after the step that follows the call. On the one-cell
  model the second step after \<^verbatim>\<open>addStimulus(0, 0, 1.0, 10.0)\<close> still adds the stimulus 1
  to the reaction term and moves the potential from 3 to \<open>-12\<close>; the update without a
  stimulus moves it to \<open>-15\<close>.
\<close>

theorem stimulus_one_step_counterexample:
  "addStimulus fhn_stim_example 0 0 1 10 = Inr fhn_stim_set \<and>
   fhn_step fhn_stim_set = Inr fhn_stim_stepped \<and>
   fhn_stimulus fhn_stim_stepped ! 0 ! 0 = 1 \<and>
   fhn_u (projr (fhn_step fhn_stim_stepped)) ! 0 ! 0 = - 12 \<and>
   fhn_u (projr (fhn_step (fhn_stim_stepped\<lparr>fhn_stimulus := [[0]]\<rparr>))) ! 0 ! 0 = - 15 \<and>
   fhn_u (projr (fhn_step fhn_stim_stepped)) ! 0 ! 0 =
     fhn_u fhn_stim_stepped ! 0 ! 0 +
       fhn_dt fhn_stim_stepped * reactionU (fhn_u fhn_stim_stepped ! 0 ! 0) (fhn_v fhn_stim_stepped ! 0 ! 0) 1 \<and>
   fhn_u (projr (fhn_step fhn_stim_stepped)) ! 0 ! 0 \<noteq>
     fhn_u fhn_stim_stepped ! 0 ! 0 +
       fhn_dt fhn_stim_stepped * reactionU (fhn_u fhn_stim_stepped ! 0 ! 0) (fhn_v fhn_stim_stepped ! 0 ! 0) 0"
  by code_simp

text \<open>
  C5, as amended. \<^verbatim>\<open>saveState\<close> to a file followed by \<^verbatim>\<open>loadState\<close> of that file into
  a freshly constructed model of the same width and height returns true and reproduces
  every field value and the simulation time rounded to six significant decimal digits,
  the precision at which the stream prints them. A state whose field values and time
  have at most six significant digits is reproduced exactly.
\<close>

theorem save_load_round_trip:
  assumes "fhn_wf m"
  shows "\<exists>file m'. saveState m True = Inr (True, file) \<and>
      loadState (FitzHughNagumo (fhn_width m) (fhn_height m) dt) (Some file) = Inr (True, m') \<and>
      fhn_u m' = map (map round_sig6) (fhn_u m) \<and> fhn_v m' = map (map round_sig6) (fhn_v m) \<and>
      fhn_time m' = round_sig6 (fhn_time m) \<and>
      ((\<forall>r\<in>set (fhn_u m). \<forall>x\<in>set r. round_sig6 x = x) \<and>
       (\<forall>r\<in>set (fhn_v m). \<forall>x\<in>set r. round_sig6 x = x) \<and>
       round_sig6 (fhn_time m) = fhn_time m \<longrightarrow>
         fhn_u m' = fhn_u m \<and> fhn_v m' = fhn_v m \<and> fhn_time m' = fhn_time m)"
proof -
  let ?f = "FitzHughNagumo (fhn_width m) (fhn_height m) dt"
  obtain fl where sv: "saveState m True = Inr (True, fl)"
    using saveState_output[OF assms] by blast
  have d: "fhn_width ?f = fhn_width m" "fhn_height ?f = fhn_height m"
    by (simp_all add: FitzHughNagumo_def)
  let ?m' = "?f\<lparr>fhn_time := round_sig6 (fhn_time m), fhn_a := round_sig6 (fhn_a m),
                  fhn_b := round_sig6 (fhn_b m), fhn_c := round_sig6 (fhn_c m),
                  fhn_d := round_sig6 (fhn_d m), fhn_du := round_sig6 (fhn_du m),
                  fhn_dv := round_sig6 (fhn_dv m),
                  fhn_u := map (map round_sig6) (fhn_u m),
                  fhn_v := map (map round_sig6) (fhn_v m)\<rparr>"
  have ld: "loadState ?f (Some fl) = Inr (True, ?m')"
    by (rule loadState_saved[OF assms fhn_wf_FitzHughNagumo d sv])
  have v: "fhn_u ?m' = map (map round_sig6) (fhn_u m)" "fhn_v ?m' = map (map round_sig6) (fhn_v m)"
    "fhn_time ?m' = round_sig6 (fhn_time m)"
    by simp_all
  have e: "fhn_u ?m' = fhn_u m \<and> fhn_v ?m' = fhn_v m \<and> fhn_time ?m' = fhn_time m"
    if "(\<forall>r\<in>set (fhn_u m). \<forall>x\<in>set r. round_sig6 x = x) \<and>
       (\<forall>r\<in>set (fhn_v m). \<forall>x\<in>set r. round_sig6 x = x) \<and>
       round_sig6 (fhn_time m) = fhn_time m"
    using that v by (simp add: map_map_id)
  from sv ld v e show ?thesis by blast
qed

theorem save_load_round_trip_witness:
  "fhn_wf fhn_example \<and>
   list_all (list_all (\<lambda>x. round_sig6 x = x)) (fhn_u fhn_example) \<and>
   list_all (list_all (\<lambda>x. round_sig6 x = x)) (fhn_v fhn_example) \<and>
   round_sig6 (fhn_time fhn_example) = fhn_time fhn_example \<and>
   (\<exists>file m'. saveState fhn_example True = Inr (True, file) \<and>
      loadState (FitzHughNagumo 3 3 (1 / 100)) (Some file) = Inr (True, m') \<and>
      fhn_u m' = fhn_u fhn_example \<and> fhn_v m' = fhn_v fhn_example \<and>
      fhn_time m' = fhn_time fhn_example)"
proof -
  have r: "\<forall>r\<in>set (fhn_u fhn_example). \<forall>x\<in>set r. round_sig6 x = x"
    "\<forall>r\<in>set (fhn_v fhn_example). \<forall>x\<in>set r. round_sig6 x = x"
    "round_sig6 (fhn_time fhn_example) = fhn_time fhn_example"
    by (auto simp: fhn_example_def FitzHughNagumo_def new_grid_def round_sig6_0 round_sig6_1)
  have d: "fhn_width fhn_example = 3" "fhn_height fhn_example = 3"
    by (simp_all add: fhn_example_def FitzHughNagumo_def)
  from save_load_round_trip[OF fhn_wf_example, of "1 / 100"] r
  have "\<exists>file m'. saveState fhn_example True = Inr (True, file) \<and>
      loadState (FitzHughNagumo 3 3 (1 / 100)) (Some file) = Inr (True, m') \<and>
      fhn_u m' = fhn_u fhn_example \<and> fhn_v m' = fhn_v fhn_example \<and>
      fhn_time m' = fhn_time fhn_example"
    unfolding d by blast
  with fhn_wf_example r show ?thesis by (simp add: list_all_iff)
qed

text \<open>
  The round trip is not exact for every state: the potential \<open>1234567\<close> is written as
  \<^verbatim>\<open>1.23457e+06\<close> and read back as \<open>1234570\<close>.
\<close>

theorem save_load_round_trip_counterexample:
  "fhn_wf fhn_save_example \<and> fhn_u fhn_save_example = [[1234567]] \<and>
   put_double 1234567 = RealTok 1234570 \<and>
   fst (projr (saveState fhn_save_example True)) \<and>
   fst (projr (loadState (FitzHughNagumo 1 1 (1 / 100))
                 (Some (snd (projr (saveState fhn_save_example True)))))) \<and>
   fhn_u (snd (projr (loadState (FitzHughNagumo 1 1 (1 / 100))
                 (Some (snd (projr (saveState fhn_save_example True))))))) = [[1234570]]"
proof -
  have w: "fhn_wf fhn_save_example" by code_simp
  have u: "fhn_u fhn_save_example = [[1234567]]" by (simp add: fhn_save_example_def)
  have p: "put_double 1234567 = RealTok 1234570"
    by (simp add: put_double_def round_sig6_1234567)
  obtain fl where sv: "saveState fhn_save_example True = Inr (True, fl)"
    using saveState_output[OF w] by blast
  have d: "fhn_width (FitzHughNagumo 1 1 (1 / 100)) = fhn_width fhn_save_example"
    "fhn_height (FitzHughNagumo 1 1 (1 / 100)) = fhn_height fhn_save_example"
    by (simp_all add: FitzHughNagumo_def fhn_save_example_def)
  note ld = loadState_saved[OF w fhn_wf_FitzHughNagumo d sv]
  show ?thesis
    using w u p sv ld by (simp add: round_sig6_1234567)
qed

text \<open>
  C1, as amended. When the file's recorded width or height differs from the live grid's,
  \<^verbatim>\<open>loadState\<close> returns false and the parameters, the diffusion coefficients and every
  field value are what they were before the call (the simulation time is read before the
  sizes are compared). When the sizes match, the header converts and the field data stops
  converting after \<open>length ts\<close> values (at the end of the file, or at text that is no
  number), \<^verbatim>\<open>loadState\<close> returns false with the grid size, the time step and the stimuli as
  they were; the simulation time, the parameters and the coefficients hold the file's
  values; and with the cells numbered in the order of the file, \<open>u\<close> first and then \<open>v\<close>,
  row by row, every cell before number \<open>length ts\<close> holds the file's value, cell number
  \<open>length ts\<close> holds zero when the text there is no number and its old value at the end of
  the file, and every later cell holds its old value.
\<close>

theorem loadState_failure:
  assumes "fhn_wf m"
  shows "(fw \<noteq> int (fhn_width m) \<or> fh \<noteq> int (fhn_height m) \<longrightarrow>
            (\<exists>t. loadState m (Some (IntTok fw # IntTok fh # rest)) = Inr (False, m\<lparr>fhn_time := t\<rparr>))) \<and>
         (length hdr = 7 \<and> (\<forall>t\<in>set (hdr @ ts). t \<noteq> BadTok) \<and>
          length ts < 2 * fhn_width m * fhn_height m \<and> (bad = [] \<or> (\<exists>r. bad = BadTok # r)) \<longrightarrow>
            (\<exists>m'. loadState m (Some (IntTok (int (fhn_width m)) # IntTok (int (fhn_height m))
                                      # hdr @ ts @ bad)) = Inr (False, m') \<and>
               fhn_wf m' \<and> fhn_width m' = fhn_width m \<and> fhn_height m' = fhn_height m \<and>
               fhn_dt m' = fhn_dt m \<and> fhn_stimulus m' = fhn_stimulus m \<and>
               fhn_time m' = tok_value (hdr ! 0) \<and> fhn_a m' = tok_value (hdr ! 1) \<and>
               fhn_b m' = tok_value (hdr ! 2) \<and> fhn_c m' = tok_value (hdr ! 3) \<and>
               fhn_d m' = tok_value (hdr ! 4) \<and> fhn_du m' = tok_value (hdr ! 5) \<and>
               fhn_dv m' = tok_value (hdr ! 6) \<and>
               (\<forall>y<fhn_height m. \<forall>x<fhn_width m.
                  fhn_u m' ! y ! x =
                    (if y * fhn_width m + x < length ts then tok_value (ts ! (y * fhn_width m + x))
                     else if y * fhn_width m + x = length ts \<and> bad \<noteq> [] then 0
                     else fhn_u m ! y ! x) \<and>
                  fhn_v m' ! y ! x =
                    (if fhn_height m * fhn_width m + (y * fhn_width m + x) < length ts
                     then tok_value (ts ! (fhn_height m * fhn_width m + (y * fhn_width m + x)))
                     else if fhn_height m * fhn_width m + (y * fhn_width m + x) = length ts \<and> bad \<noteq> []
                     then 0
                     else fhn_v m ! y ! x))))"
proof (intro conjI impI)
  assume "fw \<noteq> int (fhn_width m) \<or> fh \<noteq> int (fhn_height m)"
  from loadState_mismatch[OF this]
  show "\<exists>t. loadState m (Some (IntTok fw # IntTok fh # rest)) = Inr (False, m\<lparr>fhn_time := t\<rparr>)"
    by blast
next
  assume a: "length hdr = 7 \<and> (\<forall>t\<in>set (hdr @ ts). t \<noteq> BadTok) \<and>
          length ts < 2 * fhn_width m * fhn_height m \<and> (bad = [] \<or> (\<exists>r. bad = BadTok # r))"
  then have hd: "length hdr = 7" "\<forall>t\<in>set hdr. t \<noteq> BadTok"
    and ts: "\<forall>t\<in>set ts. t \<noteq> BadTok" "length ts < 2 * fhn_width m * fhn_height m"
    and bad: "bad = [] \<or> (\<exists>r. bad = BadTok # r)"
    by auto
  from loadState_field_failure[OF assms hd ts bad]
  obtain gu gv where r: "loadState m (Some (IntTok (int (fhn_width m)) # IntTok (int (fhn_height m)) # hdr @ ts @ bad))
           = Inr (False, (header_loaded m hdr)\<lparr>fhn_u := gu, fhn_v := gv\<rparr>)"
    "is_grid (fhn_height m) (fhn_width m) gu" "is_grid (fhn_height m) (fhn_width m) gv"
    "\<forall>y<fhn_height m. \<forall>x<fhn_width m.
       gu ! y ! x =
         (if y * fhn_width m + x < length ts then tok_value (ts ! (y * fhn_width m + x))
          else if y * fhn_width m + x = length ts \<and> bad \<noteq> [] then 0
          else fhn_u m ! y ! x) \<and>
       gv ! y ! x =
         (if fhn_height m * fhn_width m + (y * fhn_width m + x) < length ts
          then tok_value (ts ! (fhn_height m * fhn_width m + (y * fhn_width m + x)))
          else if fhn_height m * fhn_width m + (y * fhn_width m + x) = length ts \<and> bad \<noteq> []
          then 0
          else fhn_v m ! y ! x)"
    by blast
  let ?m' = "(header_loaded m hdr)\<lparr>fhn_u := gu, fhn_v := gv\<rparr>"
  have w: "fhn_wf ?m'"
    using assms r(2,3) by (simp add: fhn_wf_def header_loaded_def)
  have f: "fhn_u ?m' = gu" "fhn_v ?m' = gv" by simp_all
  have p: "fhn_width ?m' = fhn_width m \<and> fhn_height ?m' = fhn_height m \<and>
           fhn_dt ?m' = fhn_dt m \<and> fhn_stimulus ?m' = fhn_stimulus m \<and>
           fhn_time ?m' = tok_value (hdr ! 0) \<and> fhn_a ?m' = tok_value (hdr ! 1) \<and>
           fhn_b ?m' = tok_value (hdr ! 2) \<and> fhn_c ?m' = tok_value (hdr ! 3) \<and>
           fhn_d ?m' = tok_value (hdr ! 4) \<and> fhn_du ?m' = tok_value (hdr ! 5) \<and>
           fhn_dv ?m' = tok_value (hdr ! 6)"
    by (simp add: header_loaded_def)
  show "\<exists>m'. loadState m (Some (IntTok (int (fhn_width m)) # IntTok (int (fhn_height m))
                                      # hdr @ ts @ bad)) = Inr (False, m') \<and>
               fhn_wf m' \<and> fhn_width m' = fhn_width m \<and> fhn_height m' = fhn_height m \<and>
               fhn_dt m' = fhn_dt m \<and> fhn_stimulus m' = fhn_stimulus m \<and>
               fhn_time m' = tok_value (hdr ! 0) \<and> fhn_a m' = tok_value (hdr ! 1) \<and>
               fhn_b m' = tok_value (hdr ! 2) \<and> fhn_c m' = tok_value (hdr ! 3) \<and>
               fhn_d m' = tok_value (hdr ! 4) \<and> fhn_du m' = tok_value (hdr ! 5) \<and>
               fhn_dv m' = tok_value (hdr ! 6) \<and>
               (\<forall>y<fhn_height m. \<forall>x<fhn_width m.
                  fhn_u m' ! y ! x =
                    (if y * fhn_width m + x < length ts then tok_value (ts ! (y * fhn_width m + x))
                     else if y * fhn_width m + x = length ts \<and> bad \<noteq> [] then 0
                     else fhn_u m ! y ! x) \<and>
                  fhn_v m' ! y ! x =
                    (if fhn_height m * fhn_width m + (y * fhn_width m + x) < length ts
                     then tok_value (ts ! (fhn_height m * fhn_width m + (y * fhn_width m + x)))
                     else if fhn_height m * fhn_width m + (y * fhn_width m + x) = length ts \<and> bad \<noteq> []
                     then 0
                     else fhn_v m ! y ! x))"
    apply (rule exI[of _ ?m'])
    unfolding f
    using r(1) w p r(4) by blast
qed

theorem loadState_failure_witness:
  "fhn_wf fhn_load_fields \<and>
   (\<exists>t. loadState fhn_load_fields (Some [IntTok 3, IntTok 3, IntTok 5])
           = Inr (False, fhn_load_fields\<lparr>fhn_time := t\<rparr>)) \<and>
   (\<exists>m'. loadState fhn_load_fields
            (Some [IntTok 2, IntTok 2, IntTok 5, IntTok 1, IntTok 2, IntTok 3, IntTok 4, IntTok 6,
                   IntTok 7, IntTok 9, BadTok]) = Inr (False, m') \<and>
          fhn_stimulus m' = fhn_stimulus fhn_load_fields \<and> fhn_dt m' = fhn_dt fhn_load_fields \<and>
          fhn_time m' = 5 \<and> fhn_a m' = 1 \<and> fhn_dv m' = 7 \<and>
          fhn_u m' ! 0 ! 0 = 9 \<and> fhn_u m' ! 0 ! 1 = 0 \<and> fhn_u m' ! 1 ! 0 = 13 \<and>
          fhn_u m' ! 1 ! 1 = 14 \<and> fhn_v m' ! 0 ! 0 = 21 \<and> fhn_v m' ! 0 ! 1 = 22 \<and>
          fhn_v m' ! 1 ! 0 = 23 \<and> fhn_v m' ! 1 ! 1 = 24) \<and>
   (\<exists>m'. loadState fhn_load_fields
            (Some [IntTok 2, IntTok 2, IntTok 5, IntTok 1, IntTok 2, IntTok 3, IntTok 4, IntTok 6,
                   IntTok 7, IntTok 9, IntTok 8, IntTok 7, IntTok 6, IntTok 5]) = Inr (False, m') \<and>
          fhn_u m' ! 0 ! 0 = 9 \<and> fhn_u m' ! 0 ! 1 = 8 \<and> fhn_u m' ! 1 ! 0 = 7 \<and>
          fhn_u m' ! 1 ! 1 = 6 \<and> fhn_v m' ! 0 ! 0 = 5 \<and> fhn_v m' ! 0 ! 1 = 22 \<and>
          fhn_v m' ! 1 ! 0 = 23 \<and> fhn_v m' ! 1 ! 1 = 24)"
proof -
  have w: "fhn_wf fhn_load_fields" by code_simp
  have d: "fhn_width fhn_load_fields = 2" "fhn_height fhn_load_fields = 2"
    by (simp_all add: fhn_load_fields_def FitzHughNagumo_def)
  have f: "fhn_u fhn_load_fields = [[11, 12], [13, 14]]" "fhn_v fhn_load_fields = [[21, 22], [23, 24]]"
    by (simp_all add: fhn_load_fields_def)
  have q: "(\<forall>y<2::nat. P y) \<longleftrightarrow> P 0 \<and> P 1" for P
    by (auto simp: less_Suc_eq numeral_2_eq_2)
  let ?hdr = "[IntTok 5, IntTok 1, IntTok 2, IntTok 3, IntTok 4, IntTok 6, IntTok 7]"
  note a = loadState_failure[OF w, of 3 3 "[IntTok 5]" ?hdr "[IntTok 9]" "[BadTok]"]
  note b = loadState_failure[OF w, of 3 3 "[IntTok 5]" ?hdr
             "[IntTok 9, IntTok 8, IntTok 7, IntTok 6, IntTok 5]" "[]"]
  have 1: "\<exists>t. loadState fhn_load_fields (Some [IntTok 3, IntTok 3, IntTok 5])
           = Inr (False, fhn_load_fields\<lparr>fhn_time := t\<rparr>)"
    using a d by simp
  have 2: "\<exists>m'. loadState fhn_load_fields
            (Some [IntTok 2, IntTok 2, IntTok 5, IntTok 1, IntTok 2, IntTok 3, IntTok 4, IntTok 6,
                   IntTok 7, IntTok 9, BadTok]) = Inr (False, m') \<and>
          fhn_stimulus m' = fhn_stimulus fhn_load_fields \<and> fhn_dt m' = fhn_dt fhn_load_fields \<and>
          fhn_time m' = 5 \<and> fhn_a m' = 1 \<and> fhn_dv m' = 7 \<and>
          fhn_u m' ! 0 ! 0 = 9 \<and> fhn_u m' ! 0 ! 1 = 0 \<and> fhn_u m' ! 1 ! 0 = 13 \<and>
          fhn_u m' ! 1 ! 1 = 14 \<and> fhn_v m' ! 0 ! 0 = 21 \<and> fhn_v m' ! 0 ! 1 = 22 \<and>
          fhn_v m' ! 1 ! 0 = 23 \<and> fhn_v m' ! 1 ! 1 = 24"
    using a unfolding d f q by (auto simp: tok_value_def)
  have 3: "\<exists>m'. loadState fhn_load_fields
            (Some [IntTok 2, IntTok 2, IntTok 5, IntTok 1, IntTok 2, IntTok 3, IntTok 4, IntTok 6,
                   IntTok 7, IntTok 9, IntTok 8, IntTok 7, IntTok 6, IntTok 5]) = Inr (False, m') \<and>
          fhn_u m' ! 0 ! 0 = 9 \<and> fhn_u m' ! 0 ! 1 = 8 \<and> fhn_u m' ! 1 ! 0 = 7 \<and>
          fhn_u m' ! 1 ! 1 = 6 \<and> fhn_v m' ! 0 ! 0 = 5 \<and> fhn_v m' ! 0 ! 1 = 22 \<and>
          fhn_v m' ! 1 ! 0 = 23 \<and> fhn_v m' ! 1 ! 1 = 24"
    using b unfolding d f q by (auto simp: tok_value_def)
  from w 1 2 3 show ?thesis by blast
qed

text \<open>
  The claim as stated fails: a file for a 3x3 grid loaded into the 2x2 model leaves the
  simulation time at the file's value 5, and a file whose second field value is not a
  number leaves the time, the parameters, the coefficients and the first two cells of
  \<open>u\<close> overwritten.
\<close>

theorem loadState_failure_counterexample:
  "fhn_time fhn_load_example = 0 \<and>
   loadState fhn_load_example (Some [IntTok 3, IntTok 3, IntTok 5])
     = Inr (False, fhn_load_example\<lparr>fhn_time := 5\<rparr>) \<and>
   fhn_u fhn_load_example = [[1, 1], [1, 1]] \<and>
   loadState fhn_load_example
     (Some [IntTok 2, IntTok 2, IntTok 5, IntTok 1, IntTok 2, IntTok 3, IntTok 4, IntTok 6, IntTok 7,
            IntTok 9, BadTok])
     = Inr (False, fhn_load_example\<lparr>fhn_time := 5, fhn_a := 1, fhn_b := 2, fhn_c := 3, fhn_d := 4,
                                     fhn_du := 6, fhn_dv := 7, fhn_u := [[9, 0], [1, 1]]\<rparr>)"
  by code_simp

end
